theory Spec2Isabelle
  imports Main "HOL-Library.Sublist"
begin

section \<open>Python strings, lists and dictionaries\<close>

text \<open>
  A Python \<open>str\<close> is modelled as a \<open>string\<close>: a list of characters with code points
  below 256 (Latin-1). On this range \<open>str.lower()\<close> acts character by character: it
  moves \<open>A\<close>..\<open>Z\<close> and the capital letters U+00C0..U+00DE (the multiplication sign
  U+00D7 apart) up by 32 and leaves every other character as it is.
\<close>

definition lower_char :: "char \<Rightarrow> char" where
  "lower_char c =
     (let n = (of_char c :: nat)
      in if (65 \<le> n \<and> n \<le> 90) \<or> (192 \<le> n \<and> n \<le> 222 \<and> n \<noteq> 215)
         then char_of (n + 32) else c)"

definition lower :: "string \<Rightarrow> string" where
  "lower s = map lower_char s"

text \<open>The operator \<open>needle in hay\<close> on strings: \<open>needle\<close> occurs in \<open>hay\<close> as a
  contiguous block, found by trying every start position.\<close>

fun str_in :: "string \<Rightarrow> string \<Rightarrow> bool" where
  "str_in needle [] = (needle = [])"
| "str_in needle (c # cs) = (prefix needle (c # cs) \<or> str_in needle cs)"

text \<open>\<open>os.path.basename\<close> (POSIX): everything after the last slash.\<close>

definition basename :: "string \<Rightarrow> string" where
  "basename p = rev (takeWhile (\<lambda>c. c \<noteq> CHR ''/'') (rev p))"

text \<open>\<open>str.strip()\<close>: whitespace is removed at both ends. The whitespace characters of a
  \<open>str\<close> below 256 are U+0009..U+000D, U+001C..U+0020, U+0085 and U+00A0.\<close>

definition is_space :: "char \<Rightarrow> bool" where
  "is_space c =
     (let n = (of_char c :: nat)
      in (9 \<le> n \<and> n \<le> 13) \<or> (28 \<le> n \<and> n \<le> 32) \<or> n = 133 \<or> n = 160)"

definition strip :: "string \<Rightarrow> string" where
  "strip s = rev (dropWhile is_space (rev (dropWhile is_space s)))"

text \<open>A slice \<open>xs[a:b]\<close>: a negative bound counts from the end, and both bounds are
  clamped to the list.\<close>

definition slice_bound :: "int \<Rightarrow> int \<Rightarrow> int" where
  "slice_bound i n = (if i < 0 then max 0 (i + n) else min i n)"

definition py_slice :: "'a list \<Rightarrow> int \<Rightarrow> int \<Rightarrow> 'a list" where
  "py_slice xs a b =
     (let n = int (length xs); lo = slice_bound a n; hi = slice_bound b n
      in take (nat (hi - lo)) (drop (nat lo) xs))"

datatype error = IndexError | KeyError

text \<open>An index \<open>xs[i]\<close>: a negative index counts from the end; out of range raises.\<close>

definition py_index :: "'a list \<Rightarrow> int \<Rightarrow> error + 'a" where
  "py_index xs i =
     (if 0 \<le> i \<and> i < int (length xs) then Inr (xs ! nat i)
      else if i < 0 \<and> - int (length xs) \<le> i then Inr (xs ! nat (int (length xs) + i))
      else Inl IndexError)"

text \<open>
  A \<open>dict\<close> keeps its keys in insertion order, so it is an association list whose keys
  are distinct. \<open>d[k] = v\<close> replaces the value of a key in place and appends a new key at
  the end; \<open>d[k]\<close> raises on a missing key.
\<close>

type_synonym 'v dict = "(string \<times> 'v) list"

definition wf_dict :: "'v dict \<Rightarrow> bool" where
  "wf_dict d = distinct (map fst d)"

definition keys :: "'v dict \<Rightarrow> string list" where
  "keys d = map fst d"

fun dict_set :: "string \<Rightarrow> 'v \<Rightarrow> 'v dict \<Rightarrow> 'v dict" where
  "dict_set k v [] = [(k, v)]"
| "dict_set k v (p # ps) = (if fst p = k then (k, v) # ps else p # dict_set k v ps)"

definition dict_get :: "'v dict \<Rightarrow> string \<Rightarrow> error + 'v" where
  "dict_get d k = (case map_of d k of None \<Rightarrow> Inl KeyError | Some v \<Rightarrow> Inr v)"

section \<open>Track index\<close>

text \<open>An album is its name with its tracks in order; an artist's entry is the sequence
  of its albums; the track index maps each artist to its entry, in discovery order.\<close>

type_synonym album = "string \<times> string list"
type_synonym albums = "album list"
type_synonym library = "albums dict"

text \<open>Modelled from the spec: \<open>flatten_album\<close> of \<open>tmus.music_scanner\<close>, which is not
  among the sources. The spec gives it as the concatenation of the albums' tracks, in
  album order and then track order.\<close>

definition flatten_album :: "albums \<Rightarrow> string list" where
  "flatten_album als = concat (map snd als)"

section \<open>Search filter\<close>

text \<open>The body of the loop of \<open>search_library\<close> over \<open>library.items()\<close>, on the pair of
  \<open>filtered_library\<close> and \<open>filtered_artists\<close>.\<close>

definition search_step ::
  "string \<Rightarrow> string \<times> albums \<Rightarrow> library \<times> string list \<Rightarrow> library \<times> string list" where
  "search_step query_lower item acc =
     (let artist = fst item; als = snd item;
          artist_matches = str_in query_lower (lower artist);
          all_songs = flatten_album als;
          song_matches = list_ex (\<lambda>song. str_in query_lower (lower (basename song))) all_songs
      in if artist_matches \<or> song_matches
         then (dict_set artist als (fst acc), snd acc @ [artist])
         else acc)"

definition search_library :: "library \<Rightarrow> string \<Rightarrow> library \<times> string list" where
  "search_library lib query =
     (if query = [] then (lib, keys lib)
      else fold (search_step (lower query)) lib ([], []))"

text \<open>The words of the specification: the query is a case-insensitive substring of a
  name when some contiguous block of the name equals the query up to case.\<close>

definition ci_substring :: "string \<Rightarrow> string \<Rightarrow> bool" where
  "ci_substring q s = (\<exists>pre mid post. s = pre @ mid @ post \<and> lower mid = lower q)"

text \<open>An artist matches a query when the query is a case-insensitive substring of the
  artist's name or of the basename of one of the artist's tracks.\<close>

definition artist_matches_query :: "string \<Rightarrow> string \<Rightarrow> albums \<Rightarrow> bool" where
  "artist_matches_query q artist als =
     (ci_substring q artist \<or> (\<exists>song \<in> set (flatten_album als). ci_substring q (basename song)))"

section \<open>Session controller\<close>

text \<open>
  The loop of \<open>main_ui\<close> is modelled as a function \<open>tick\<close> from the state at the head of
  one iteration, and what the terminal and the player report during it, to the state at
  the head of the next. The local variables of \<open>main_ui\<close> that live across iterations are
  the fields of \<open>state\<close>; the calls made on the player are logged in \<open>player_calls\<close>.
  Drawing on the screen is not modelled: the calls of \<open>addstr\<close>, \<open>box\<close>, \<open>clear\<close> and
  \<open>refresh\<close> are taken to succeed and to change nothing of the state.
\<close>

definition PADDING :: int where "PADDING = 2"

text \<open>The key codes of curses.\<close>

definition KEY_DOWN :: int where "KEY_DOWN = 258"
definition KEY_UP :: int where "KEY_UP = 259"
definition KEY_LEFT :: int where "KEY_LEFT = 260"
definition KEY_RIGHT :: int where "KEY_RIGHT = 261"
definition KEY_BACKSPACE :: int where "KEY_BACKSPACE = 263"
definition KEY_ENTER :: int where "KEY_ENTER = 343"

definition ord :: "char \<Rightarrow> int" where
  "ord c = of_char c"

definition chr :: "int \<Rightarrow> char" where
  "chr k = char_of k"

text \<open>A window of \<open>curses.newwin\<close>: lines, columns, and the row and column of its
  corner.\<close>

type_synonym window = "int \<times> int \<times> int \<times> int"

record layout =
  content_height :: int
  content_width :: int
  artist_win_width :: int
  songs_win_width :: int
  max_rows :: int
  artist_win :: window
  songs_win :: window

definition compute_layout :: "int \<Rightarrow> int \<Rightarrow> layout" where
  "compute_layout h w =
     (let ch = h - 10;
          cw = w - 2 * PADDING;
          aw = cw div 2 - 1;
          sw = cw - aw - 1
      in \<lparr>content_height = ch, content_width = cw, artist_win_width = aw,
          songs_win_width = sw, max_rows = ch - 2,
          artist_win = (ch, aw, 3, PADDING),
          songs_win = (ch, sw, 3, PADDING + aw + 1)\<rparr>)"

datatype player_call =
  AudioSetVolume int | SetMedia string | Play | Stop | Pause | SetTime int

record state =
  library :: library
  artists :: "string list"
  selected_artist :: int
  artist_offset :: int
  selected_song :: int
  song_offset :: int
  curr_song :: "string option"
  curr_artist :: "string option"
  playing :: bool
  repeat :: bool
  search_active :: bool
  search_query :: string
  filtered_library :: library
  filtered_artists :: "string list"
  volume :: int
  height :: int
  width :: int
  layout :: layout
  player_calls :: "player_call list"

text \<open>What one iteration reads from outside: the terminal size (\<open>getmaxyx\<close>), the key
  (\<open>getch\<close>, \<open>-1\<close> when none came within the timeout), whether the player's state is
  \<open>Ended\<close> when the now-playing line is drawn, and the player's time and length in
  milliseconds when a seek key is handled.\<close>

record input =
  term_height :: int
  term_width :: int
  key :: int
  ended :: bool
  player_time :: int
  player_length :: int

text \<open>The state before the loop, for a library that is not empty.\<close>

definition init_state :: "library \<Rightarrow> int \<Rightarrow> int \<Rightarrow> state" where
  "init_state lib h w =
     \<lparr>library = lib, artists = keys lib,
      selected_artist = 0, artist_offset = 0, selected_song = 0, song_offset = 0,
      curr_song = None, curr_artist = None, playing = False, repeat = False,
      search_active = False, search_query = [],
      filtered_library = lib, filtered_artists = keys lib,
      volume = 50, height = h, width = w, layout = compute_layout h w,
      player_calls = [AudioSetVolume 50]\<rparr>"

text \<open>\<open>main_ui\<close> returns before the loop when the library is empty.\<close>

definition main_ui_start :: "library \<Rightarrow> int \<Rightarrow> int \<Rightarrow> state option" where
  "main_ui_start lib h w = (if lib = [] then None else Some (init_state lib h w))"

text \<open>Truth value of a variable that holds \<open>None\<close> or a string.\<close>

definition truthy :: "string option \<Rightarrow> bool" where
  "truthy x = (case x of None \<Rightarrow> False | Some str \<Rightarrow> str \<noteq> [])"

definition reset_cursors :: "state \<Rightarrow> state" where
  "reset_cursors s =
     s\<lparr>selected_artist := 0, artist_offset := 0, selected_song := 0, song_offset := 0\<rparr>"

text \<open>The resize check at the head of the loop.\<close>

definition handle_resize :: "input \<Rightarrow> state \<Rightarrow> state" where
  "handle_resize inp s =
     (if (term_height inp, term_width inp) \<noteq> (height s, width s)
      then (reset_cursors s)\<lparr>height := term_height inp, width := term_width inp,
             layout := compute_layout (term_height inp) (term_width inp)\<rparr>
      else s)"

definition current_artists :: "state \<Rightarrow> string list" where
  "current_artists s = (if search_query s \<noteq> [] then filtered_artists s else artists s)"

definition current_library :: "state \<Rightarrow> library" where
  "current_library s = (if search_query s \<noteq> [] then filtered_library s else library s)"

text \<open>The lists computed while the two panes are drawn, which the key handling of the
  same iteration reads.\<close>

record panes =
  visible_artists :: "string list"
  all_songs_by_artist :: "string list"
  visible_songs :: "string list"

definition draw_panes :: "state \<Rightarrow> error + panes" where
  "draw_panes s =
     (let rows = max_rows (layout s);
          va = py_slice (current_artists s) (artist_offset s) (artist_offset s + rows)
      in if va \<noteq> [] \<and> selected_artist s < int (length va)
         then (case py_index va (selected_artist s) of
                 Inl e \<Rightarrow> Inl e
               | Inr artist \<Rightarrow>
                   (case dict_get (current_library s) artist of
                      Inl e \<Rightarrow> Inl e
                    | Inr als \<Rightarrow>
                        Inr \<lparr>visible_artists = va,
                             all_songs_by_artist = flatten_album als,
                             visible_songs =
                               py_slice (flatten_album als) (song_offset s) (song_offset s + rows)\<rparr>))
         else Inr \<lparr>visible_artists = va, all_songs_by_artist = [], visible_songs = []\<rparr>)"

text \<open>The repeat logic of the now-playing section: the calls it makes on the player.\<close>

definition repeat_calls :: "input \<Rightarrow> state \<Rightarrow> player_call list" where
  "repeat_calls inp s =
     (case curr_song s of
        None \<Rightarrow> []
      | Some song \<Rightarrow>
          if song \<noteq> [] \<and> truthy (curr_artist s) \<and> repeat s \<and> ended inp
          then [Stop, SetMedia song, Play] else [])"

definition call_player :: "player_call list \<Rightarrow> state \<Rightarrow> state" where
  "call_player cs s = s\<lparr>player_calls := player_calls s @ cs\<rparr>"

text \<open>Leaving the filter: Escape in search mode and \<open>c\<close> in normal mode.\<close>

definition clear_filter :: "state \<Rightarrow> state" where
  "clear_filter s =
     (reset_cursors s)\<lparr>search_query := [], filtered_library := library s,
        filtered_artists := keys (library s)\<rparr>"

text \<open>Key handling while \<open>search_active\<close> holds; the iteration then continues the
  loop.\<close>

definition handle_search_key :: "int \<Rightarrow> state \<Rightarrow> state" where
  "handle_search_key k s =
     (if k = 27 then (clear_filter s)\<lparr>search_active := False\<rparr>
      else if k = KEY_ENTER \<or> k = 10 \<or> k = 13 then
        (if strip (search_query s) \<noteq> []
         then (let r = search_library (library s) (strip (search_query s))
               in (reset_cursors s)\<lparr>search_active := False,
                    filtered_library := fst r, filtered_artists := snd r\<rparr>)
         else s\<lparr>search_active := False\<rparr>)
      else if k = KEY_BACKSPACE \<or> k = 8 \<or> k = 127 then
        (if search_query s \<noteq> [] then s\<lparr>search_query := butlast (search_query s)\<rparr> else s)
      else if 32 \<le> k \<and> k \<le> 126 then s\<lparr>search_query := search_query s @ [chr k]\<rparr>
      else s)"

text \<open>The branches of the navigation keys.\<close>

definition nav_up :: "state \<Rightarrow> state" where
  "nav_up s0 =
     (let s = s0\<lparr>song_offset := 0, selected_song := 0\<rparr>
      in if selected_artist s > 0 then s\<lparr>selected_artist := selected_artist s - 1\<rparr>
         else if selected_artist s + artist_offset s > 0
         then s\<lparr>artist_offset := artist_offset s - 1\<rparr>
         else s)"

definition nav_down :: "state \<Rightarrow> state" where
  "nav_down s0 =
     (let s = s0\<lparr>song_offset := 0, selected_song := 0\<rparr>;
          n = int (length (current_artists s))
      in if selected_artist s < min (max_rows (layout s) - 1) (n - 1)
         then s\<lparr>selected_artist := selected_artist s + 1\<rparr>
         else if selected_artist s + artist_offset s < n - 1
         then s\<lparr>artist_offset := artist_offset s + 1\<rparr>
         else s)"

definition nav_left :: "state \<Rightarrow> state" where
  "nav_left s =
     (if selected_song s > 0 then s\<lparr>selected_song := selected_song s - 1\<rparr>
      else if selected_song s + song_offset s > 0
      then s\<lparr>song_offset := song_offset s - 1\<rparr>
      else s)"

definition nav_right :: "panes \<Rightarrow> state \<Rightarrow> state" where
  "nav_right v s =
     (let n = int (length (all_songs_by_artist v))
      in if selected_song s < min (max_rows (layout s) - 1) (n - 1)
         then s\<lparr>selected_song := selected_song s + 1\<rparr>
         else if selected_song s + song_offset s < n - 1
         then s\<lparr>song_offset := song_offset s + 1\<rparr>
         else s)"

text \<open>Enter in normal mode: load and play the song under the cursor.\<close>

definition play_selected :: "panes \<Rightarrow> state \<Rightarrow> error + state" where
  "play_selected v s =
     (if visible_songs v \<noteq> [] \<and> selected_song s < int (length (visible_songs v))
      then (case py_index (visible_songs v) (selected_song s) of
              Inl e \<Rightarrow> Inl e
            | Inr song \<Rightarrow>
                (case (if visible_artists v \<noteq> [] \<and>
                          selected_artist s < int (length (visible_artists v))
                       then py_index (visible_artists v) (selected_artist s)
                       else Inr ''Unknown Artist'') of
                   Inl e \<Rightarrow> Inl e
                 | Inr artist \<Rightarrow>
                     Inr (call_player [SetMedia song, Play]
                            (s\<lparr>curr_song := Some song, curr_artist := Some artist,
                               playing := True\<rparr>))))
      else Inr s)"

definition seek_to :: "int \<Rightarrow> state \<Rightarrow> state" where
  "seek_to new_time s = (if truthy (curr_song s) then call_player [SetTime new_time] s else s)"

datatype outcome = Running state | Exited state | Raised error

text \<open>Key handling in normal mode, in the order of the source.\<close>

definition handle_key :: "input \<Rightarrow> panes \<Rightarrow> state \<Rightarrow> outcome" where
  "handle_key inp v s0 =
     (let k = key inp
      in if k = ord CHR ''/'' then Running (s0\<lparr>search_active := True\<rparr>)
         else
           (let s = (if k = ord CHR ''c'' \<and> search_query s0 \<noteq> [] then clear_filter s0 else s0)
            in if k = KEY_UP then Running (nav_up s)
               else if k = KEY_DOWN then Running (nav_down s)
               else if k = KEY_LEFT then Running (nav_left s)
               else if k = KEY_RIGHT then Running (nav_right v s)
               else if k = KEY_ENTER \<or> k = 10 \<or> k = 13 then
                 (case play_selected v s of Inl e \<Rightarrow> Raised e | Inr s' \<Rightarrow> Running s')
               else if k = ord CHR ''='' then
                 (let vol = min 100 (volume s + 5)
                  in Running (call_player [AudioSetVolume vol] (s\<lparr>volume := vol\<rparr>)))
               else if k = ord CHR ''-'' then
                 (let vol = max 0 (volume s - 5)
                  in Running (call_player [AudioSetVolume vol] (s\<lparr>volume := vol\<rparr>)))
               else if k = ord CHR '','' then
                 Running (seek_to (max 0 (player_time inp - 5000)) s)
               else if k = ord CHR ''.'' then
                 Running (seek_to (min (player_length inp) (player_time inp + 5000)) s)
               else if k = ord CHR ''<'' then
                 Running (seek_to (max 0 (player_time inp - 10000)) s)
               else if k = ord CHR ''>'' then
                 Running (seek_to (min (player_length inp) (player_time inp + 10000)) s)
               else if k = ord CHR ''p'' then Running (call_player [Pause] s)
               else if k = ord CHR ''r'' then Running (s\<lparr>repeat := \<not> repeat s\<rparr>)
               else if k = ord CHR ''q'' then Exited s
               else Running s))"

text \<open>One iteration of the loop.\<close>

definition tick :: "input \<Rightarrow> state \<Rightarrow> outcome" where
  "tick inp s =
     (let s1 = handle_resize inp s
      in case draw_panes s1 of
           Inl e \<Rightarrow> Raised e
         | Inr v \<Rightarrow>
             (let s2 = call_player (repeat_calls inp s1) s1
              in if search_active s2 then Running (handle_search_key (key inp) s2)
                 else handle_key inp v s2))"

text \<open>The loop over the inputs of successive iterations; it stops at \<open>break\<close> and at an
  exception.\<close>

fun run :: "input list \<Rightarrow> state \<Rightarrow> outcome" where
  "run [] s = Running s"
| "run (inp # inps) s =
     (case tick inp s of Running s' \<Rightarrow> run inps s' | Exited s' \<Rightarrow> Exited s'
      | Raised e \<Rightarrow> Raised e)"

text \<open>What the loop keeps true of its state, and what keeps its indexing and its
  look-ups from raising: the two cursors are not negative, and each artist list names
  only artists of the index it goes with.\<close>

definition session_ok :: "state \<Rightarrow> bool" where
  "session_ok s =
     (0 \<le> selected_artist s \<and> 0 \<le> selected_song s \<and>
      set (artists s) \<subseteq> set (keys (library s)) \<and>
      set (filtered_artists s) \<subseteq> set (keys (filtered_library s)))"

text \<open>The state in which the key of an iteration is handled.\<close>

definition before_key :: "input \<Rightarrow> state \<Rightarrow> state" where
  "before_key inp s = call_player (repeat_calls inp s) (handle_resize inp s)"

text \<open>An iteration that neither raises nor leaves the state out of order.\<close>

definition outcome_ok :: "outcome \<Rightarrow> bool" where
  "outcome_ok out =
     (case out of Running s \<Rightarrow> session_ok s | Exited s \<Rightarrow> session_ok s | Raised e \<Rightarrow> False)"

text \<open>
  The volume in range: the level is within 0 and 100, and so is every level passed to
  the player's \<open>audio_set_volume\<close>.
\<close>

fun volume_call_ok :: "player_call \<Rightarrow> bool" where
  "volume_call_ok (AudioSetVolume n) = (0 \<le> n \<and> n \<le> 100)"
| "volume_call_ok c = True"

definition volume_ok :: "state \<Rightarrow> bool" where
  "volume_ok s = (0 \<le> volume s \<and> volume s \<le> 100 \<and> list_all volume_call_ok (player_calls s))"

definition outcome_volume_ok :: "outcome \<Rightarrow> bool" where
  "outcome_volume_ok out =
     (case out of Running s \<Rightarrow> volume_ok s | Exited s \<Rightarrow> volume_ok s | Raised e \<Rightarrow> True)"

text \<open>
  The words of the specification: a position clamped to an interval.
\<close>

definition clamp :: "int \<Rightarrow> int \<Rightarrow> int \<Rightarrow> int" where
  "clamp lo hi x = max lo (min hi x)"

text \<open>
  The calls made on the player up to the end of a run.
\<close>

definition calls_of :: "outcome \<Rightarrow> player_call list" where
  "calls_of out =
     (case out of Running s \<Rightarrow> player_calls s | Exited s \<Rightarrow> player_calls s | Raised e \<Rightarrow> [])"

text \<open>
  The songs under the artist cursor: the flattened tracks of the artist at position
  \<open>selected_artist + artist_offset\<close> of the artist list shown, and no songs when that
  position or that artist does not exist.
\<close>

definition selected_songs :: "state \<Rightarrow> string list" where
  "selected_songs s =
     (case py_index (current_artists s) (selected_artist s + artist_offset s) of
        Inl e \<Rightarrow> []
      | Inr artist \<Rightarrow>
          (case dict_get (current_library s) artist of
             Inl e \<Rightarrow> []
           | Inr als \<Rightarrow> flatten_album als))"

text \<open>
  The words of the specification: for each of the two lists, the selected index plus the
  scroll offset is not negative and not beyond the last position of the list.
\<close>

definition cursors_in_bounds :: "state \<Rightarrow> bool" where
  "cursors_in_bounds s =
     (0 \<le> selected_artist s + artist_offset s \<and>
      selected_artist s + artist_offset s \<le> int (length (current_artists s)) - 1 \<and>
      0 \<le> selected_song s + song_offset s \<and>
      selected_song s + song_offset s \<le> int (length (selected_songs s)) - 1)"

definition nav_key :: "int \<Rightarrow> bool" where
  "nav_key k = (k = KEY_UP \<or> k = KEY_DOWN \<or> k = KEY_LEFT \<or> k = KEY_RIGHT)"

text \<open>
  An index the loop is entered with, whose artists all have a track.
\<close>

definition library_ok :: "library \<Rightarrow> bool" where
  "library_ok lib =
     (wf_dict lib \<and> lib \<noteq> [] \<and> list_all (\<lambda>item. flatten_album (snd item) \<noteq> []) lib)"

text \<open>
  What navigation keeps: the index and the mode are those of the start and no filter is
  set; each cursor and offset stay within their list, and an offset other than zero leaves
  a full window of rows below it.
\<close>

definition nav_frame :: "library \<Rightarrow> state \<Rightarrow> bool" where
  "nav_frame lib s =
     (library_ok lib \<and> session_ok s \<and> library s = lib \<and> artists s = keys lib \<and>
      search_query s = [] \<and> \<not> search_active s)"

definition window_ok :: "int \<Rightarrow> int \<Rightarrow> int \<Rightarrow> int \<Rightarrow> bool" where
  "window_ok sel off rows n =
     (0 \<le> sel \<and> 0 \<le> off \<and> sel + off \<le> n - 1 \<and> (off = 0 \<or> off + rows \<le> n))"

definition songs_at :: "library \<Rightarrow> int \<Rightarrow> string list" where
  "songs_at lib i =
     (case py_index (keys lib) i of
        Inl e \<Rightarrow> []
      | Inr artist \<Rightarrow>
          (case dict_get lib artist of Inl e \<Rightarrow> [] | Inr als \<Rightarrow> flatten_album als))"

definition nav_inv :: "library \<Rightarrow> state \<Rightarrow> bool" where
  "nav_inv lib s =
     (nav_frame lib s \<and>
      window_ok (selected_artist s) (artist_offset s) (max_rows (layout s)) (int (length lib)) \<and>
      window_ok (selected_song s) (song_offset s) (max_rows (layout s))
        (int (length (selected_songs s))))"

section \<open>A small library and its inputs\<close>

definition example_library :: library where
  "example_library =
     [(''Abba'', [(''Gold'', [''/m/Abba/Gold/a.mp3'', ''/m/Abba/Gold/b.mp3''])]),
      (''Bjork'', [(''Post'', [''/m/Bjork/Post/hyper.mp3''])])]"

text \<open>A key pressed on a terminal of 24 lines and 80 columns, with a player that reports
  neither an end nor a position.\<close>

definition press :: "int \<Rightarrow> input" where
  "press k = \<lparr>term_height = 24, term_width = 80, key = k, ended = False,
              player_time = 0, player_length = 0\<rparr>"

text \<open>
  The session after \<open>/bjork\<close> was typed, and the session after Right and Enter, which
  plays the second track of the first artist.
\<close>

definition example_searching :: state where
  "example_searching =
     (init_state example_library 24 80)\<lparr>search_active := True, search_query := ''bjork''\<rparr>"

definition example_playing :: state where
  "example_playing =
     (init_state example_library 24 80)\<lparr>selected_song := 1,
        curr_song := Some ''/m/Abba/Gold/b.mp3'', curr_artist := Some ''Abba'', playing := True,
        player_calls := [AudioSetVolume 50, SetMedia ''/m/Abba/Gold/b.mp3'', Play]\<rparr>"

text \<open>
  An iteration with no key on a terminal grown to 30 lines and 100 columns.
\<close>

definition resized :: input where
  "resized = \<lparr>term_height = 30, term_width = 100, key = - 1, ended = False,
               player_time = 0, player_length = 0\<rparr>"

text \<open>
  Seek keys, with what the player reports: a position past the length it reports, no
  position and no length yet (\<open>-1\<close>), and a position within the track.
\<close>

definition seek_back_late :: input where
  "seek_back_late = \<lparr>term_height = 24, term_width = 80, key = ord CHR '','', ended = False,
                      player_time = 9000, player_length = 3000\<rparr>"

definition seek_forward_early :: input where
  "seek_forward_early = \<lparr>term_height = 24, term_width = 80, key = ord CHR ''.'', ended = False,
                          player_time = - 1, player_length = - 1\<rparr>"

definition seek_forward_mid :: input where
  "seek_forward_mid = \<lparr>term_height = 24, term_width = 80, key = ord CHR ''.'', ended = False,
                        player_time = 1000, player_length = 3000\<rparr>"

text \<open>
  A key pressed on a terminal of 13 lines, where the panes show a single row.
\<close>

definition press_small :: "int \<Rightarrow> input" where
  "press_small k = \<lparr>term_height = 13, term_width = 80, key = k, ended = False,
                    player_time = 0, player_length = 0\<rparr>"

section \<open>Properties of the search filter\<close>

lemma str_in_sublist: "str_in needle hay = sublist needle hay"
  by (induction hay) (simp_all add: sublist_Cons_right)

lemma ci_substring_str_in: "ci_substring q s = str_in (lower q) (lower s)"
proof
  assume "ci_substring q s"
  then obtain pre mid post where "s = pre @ mid @ post" "lower mid = lower q"
    unfolding ci_substring_def by blast
  then have "lower s = lower pre @ lower q @ lower post"
    by (simp add: lower_def)
  then show "str_in (lower q) (lower s)"
    by (simp add: str_in_sublist)
next
  assume "str_in (lower q) (lower s)"
  then obtain ps ss where eq: "map lower_char s = ps @ map lower_char q @ ss"
    unfolding str_in_sublist sublist_def lower_def by blast
  have "map lower_char (take (length q) (drop (length ps) s)) =
        take (length q) (drop (length ps) (map lower_char s))"
    by (simp add: take_map drop_map)
  also have "\<dots> = map lower_char q"
    by (simp add: eq)
  finally have mid: "lower (take (length q) (drop (length ps) s)) = lower q"
    by (simp add: lower_def)
  have "s = take (length ps) s @ take (length q) (drop (length ps) s) @
            drop (length q) (drop (length ps) s)"
    by (simp only: append_take_drop_id)
  with mid show "ci_substring q s"
    unfolding ci_substring_def by blast
qed

lemma artist_matches_query_code:
  "artist_matches_query q artist als =
     (str_in (lower q) (lower artist) \<or>
      list_ex (\<lambda>song. str_in (lower q) (lower (basename song))) (flatten_album als))"
  by (simp add: artist_matches_query_def ci_substring_str_in list_ex_iff)

lemma search_step_filter:
  "search_step (lower q) item acc =
     (if artist_matches_query q (fst item) (snd item)
      then (dict_set (fst item) (snd item) (fst acc), snd acc @ [fst item]) else acc)"
  by (simp add: search_step_def artist_matches_query_code Let_def)

lemma dict_set_fresh: "k \<notin> fst ` set d \<Longrightarrow> dict_set k v d = d @ [(k, v)]"
  by (induction d) auto

lemma fold_search_step:
  "distinct (map fst acc_lib @ map fst lib) \<Longrightarrow>
   fold (search_step (lower q)) lib (acc_lib, acc_names) =
     (acc_lib @ filter (\<lambda>item. artist_matches_query q (fst item) (snd item)) lib,
      acc_names @ map fst (filter (\<lambda>item. artist_matches_query q (fst item) (snd item)) lib))"
proof (induction lib arbitrary: acc_lib acc_names)
  case Nil
  then show ?case by simp
next
  case (Cons item lib)
  show ?case
  proof (cases "artist_matches_query q (fst item) (snd item)")
    case True
    have fresh: "fst item \<notin> fst ` set acc_lib"
      using Cons.prems by auto
    have d: "distinct (map fst (acc_lib @ [item]) @ map fst lib)"
      using Cons.prems by auto
    show ?thesis
      using True Cons.IH [of "acc_lib @ [item]" "acc_names @ [fst item]"] d
      by (simp add: search_step_filter dict_set_fresh [OF fresh])
  next
    case False
    have d: "distinct (map fst acc_lib @ map fst lib)"
      using Cons.prems by auto
    show ?thesis
      using False Cons.IH [OF d, of acc_names]
      by (simp add: search_step_filter)
  qed
qed

lemma search_library_filter:
  assumes "wf_dict lib" and "query \<noteq> []"
  shows "search_library lib query =
     (filter (\<lambda>item. artist_matches_query query (fst item) (snd item)) lib,
      map fst (filter (\<lambda>item. artist_matches_query query (fst item) (snd item)) lib))"
  using assms fold_search_step [of "[]" lib query "[]"]
  by (simp add: search_library_def wf_dict_def)

lemma wf_dict_lookup:
  "wf_dict d \<Longrightarrow> (dict_get d k = Inr v) = ((k, v) \<in> set d)"
proof -
  assume "wf_dict d"
  then have "(map_of d k = Some v) = ((k, v) \<in> set d)"
    unfolding wf_dict_def by (rule map_of_eq_Some_iff)
  then show ?thesis
    by (cases "map_of d k") (simp_all add: dict_get_def)
qed

lemma wf_dict_filter: "wf_dict d \<Longrightarrow> wf_dict (filter P d)"
  by (simp add: wf_dict_def distinct_map_filter)

text \<open>
  C3. Filtering with the empty query returns the index it was given, equal to the
  original and not a filtered copy, together with the artist names in the order of the
  index.
\<close>

theorem search_library_empty_query:
  "search_library lib [] = (lib, keys lib)"
  by (simp add: search_library_def)

text \<open>
  C1. For a track index and a query that is not empty, an artist is in the result of the
  search exactly when it is an artist of the index and the query is a case-insensitive
  substring of its name or of the basename of one of its tracks. The filtered index has
  the same artists as the returned list, so an excluded artist is in neither, and the
  entry of an included artist is its entry of the original index, with all its albums and
  tracks.
\<close>

theorem search_library_artist_granular:
  assumes wf: "wf_dict lib" and ne: "query \<noteq> []"
    and res: "search_library lib query = (fl, fa)"
  shows "(artist \<in> set fa \<longleftrightarrow>
            (\<exists>als. dict_get lib artist = Inr als \<and> artist_matches_query query artist als))
       \<and> (artist \<in> set (keys fl) \<longleftrightarrow> artist \<in> set fa)
       \<and> (artist \<in> set fa \<longrightarrow> dict_get fl artist = dict_get lib artist)"
proof -
  let ?P = "\<lambda>item. artist_matches_query query (fst item) (snd item)"
  have fl: "fl = filter ?P lib" and fa: "fa = map fst (filter ?P lib)"
    using search_library_filter [OF wf ne] res by simp_all
  have wfl: "wf_dict fl"
    unfolding fl by (rule wf_dict_filter [OF wf])
  have a: "artist \<in> set fa \<longleftrightarrow>
      (\<exists>als. dict_get lib artist = Inr als \<and> artist_matches_query query artist als)"
    unfolding fa by (force simp: wf_dict_lookup [OF wf])
  have b: "artist \<in> set (keys fl) \<longleftrightarrow> artist \<in> set fa"
    by (simp add: keys_def fl fa)
  have c: "dict_get fl artist = dict_get lib artist" if "artist \<in> set fa"
  proof -
    from that obtain als where in_lib: "(artist, als) \<in> set lib" and m: "?P (artist, als)"
      unfolding fa by auto
    then have "(artist, als) \<in> set fl"
      by (simp add: fl)
    then show ?thesis
      using in_lib wf_dict_lookup [OF wf] wf_dict_lookup [OF wfl] by metis
  qed
  from a b c show ?thesis by blast
qed

theorem search_library_artist_granular_witness:
  "wf_dict example_library \<and> ''A.MP3'' \<noteq> [] \<and>
   search_library example_library ''A.MP3'' =
     ([(''Abba'', [(''Gold'', [''/m/Abba/Gold/a.mp3'', ''/m/Abba/Gold/b.mp3''])])], [''Abba'']) \<and>
   artist_matches_query ''A.MP3'' ''Abba''
     [(''Gold'', [''/m/Abba/Gold/a.mp3'', ''/m/Abba/Gold/b.mp3''])] \<and>
   dict_get [(''Abba'', [(''Gold'', [''/m/Abba/Gold/a.mp3'', ''/m/Abba/Gold/b.mp3''])])] ''Abba''
     = dict_get example_library ''Abba'' \<and>
   ''Bjork'' \<notin> set (keys [(''Abba'', [(''Gold'', [''/m/Abba/Gold/a.mp3'', ''/m/Abba/Gold/b.mp3''])])])"
proof -
  have wf: "wf_dict example_library" by code_simp
  have ne: "''A.MP3'' \<noteq> []" by simp
  have res: "search_library example_library ''A.MP3'' =
     ([(''Abba'', [(''Gold'', [''/m/Abba/Gold/a.mp3'', ''/m/Abba/Gold/b.mp3''])])], [''Abba''])"
    by code_simp
  have g: "dict_get example_library ''Abba'' =
      Inr [(''Gold'', [''/m/Abba/Gold/a.mp3'', ''/m/Abba/Gold/b.mp3''])]"
    by code_simp
  note t = search_library_artist_granular [OF wf ne res]
  show ?thesis
    using wf res t [of "''Abba''"] t [of "''Bjork''"] g by simp
qed

text \<open>
  C10. For a track index and any query, the artist list that the search returns has no
  duplicates and is a subsequence of the artist names of the index in their order, and
  the keys of the filtered index are exactly the names of that list.
\<close>

theorem search_library_artist_list:
  assumes wf: "wf_dict lib" and res: "search_library lib query = (fl, fa)"
  shows "distinct fa \<and> subseq fa (keys lib) \<and> set (keys fl) = set fa"
proof (cases "query = []")
  case True
  then have "fl = lib" "fa = keys lib"
    using res by (auto simp: search_library_def)
  then show ?thesis
    using wf by (simp add: wf_dict_def keys_def)
next
  case False
  let ?P = "\<lambda>item. artist_matches_query query (fst item) (snd item)"
  have fl: "fl = filter ?P lib" and fa: "fa = map fst (filter ?P lib)"
    using search_library_filter [OF wf False] res by simp_all
  have "distinct fa"
    using wf by (simp add: fa wf_dict_def distinct_map_filter)
  moreover have "subseq fa (keys lib)"
    unfolding fa keys_def by (rule subseq_map) simp
  moreover have "set (keys fl) = set fa"
    by (simp add: keys_def fl fa)
  ultimately show ?thesis by blast
qed

theorem search_library_artist_list_witness:
  "wf_dict example_library \<and>
   search_library example_library ''bjork'' =
     ([(''Bjork'', [(''Post'', [''/m/Bjork/Post/hyper.mp3''])])], [''Bjork'']) \<and>
   distinct [''Bjork''] \<and> subseq [''Bjork''] (keys example_library) \<and>
   set (keys [(''Bjork'', [(''Post'', [''/m/Bjork/Post/hyper.mp3''])])]) = set [''Bjork'']"
proof -
  have wf: "wf_dict example_library" by code_simp
  have res: "search_library example_library ''bjork'' =
     ([(''Bjork'', [(''Post'', [''/m/Bjork/Post/hyper.mp3''])])], [''Bjork''])"
    by code_simp
  show ?thesis
    using wf res search_library_artist_list [OF wf res] by simp
qed

section \<open>The loop does not raise\<close>

lemma set_py_slice: "set (py_slice xs a b) \<subseteq> set xs"
proof -
  have "set (take n (drop m xs)) \<subseteq> set xs" for n m
    using set_take_subset [of n "drop m xs"] set_drop_subset [of m xs] by blast
  then show ?thesis by (simp add: py_slice_def Let_def)
qed

lemma py_index_in_range:
  "0 \<le> i \<Longrightarrow> i < int (length xs) \<Longrightarrow> py_index xs i = Inr (xs ! nat i)"
  by (simp add: py_index_def)

lemma py_index_mem: "py_index xs i = Inr x \<Longrightarrow> x \<in> set xs"
  by (auto simp: py_index_def split: if_splits)

lemma dict_get_key: "k \<in> set (keys d) \<Longrightarrow> \<exists>v. dict_get d k = Inr v"
proof -
  assume "k \<in> set (keys d)"
  then have "map_of d k \<noteq> None"
    by (simp add: keys_def map_of_eq_None_iff)
  then show ?thesis
    by (cases "map_of d k") (simp_all add: dict_get_def)
qed

lemma current_artists_keys:
  "session_ok s \<Longrightarrow> set (current_artists s) \<subseteq> set (keys (current_library s))"
  by (simp add: session_ok_def current_artists_def current_library_def)

lemma py_slice_Nil: "py_slice [] a b = []"
  by (simp add: py_slice_def Let_def)

lemma draw_panes_else:
  "\<not> (py_slice (current_artists s) (artist_offset s) (artist_offset s + max_rows (layout s)) \<noteq> [] \<and>
      selected_artist s < int (length (py_slice (current_artists s) (artist_offset s) (artist_offset s + max_rows (layout s))))) \<Longrightarrow>
   draw_panes s = Inr \<lparr>visible_artists = py_slice (current_artists s) (artist_offset s) (artist_offset s + max_rows (layout s)),
       all_songs_by_artist = [], visible_songs = []\<rparr>"
  unfolding draw_panes_def Let_def by (rule if_not_P)

lemma draw_panes_then:
  "py_slice (current_artists s) (artist_offset s) (artist_offset s + max_rows (layout s)) \<noteq> [] \<Longrightarrow>
   selected_artist s < int (length (py_slice (current_artists s) (artist_offset s) (artist_offset s + max_rows (layout s)))) \<Longrightarrow>
   py_index (py_slice (current_artists s) (artist_offset s) (artist_offset s + max_rows (layout s))) (selected_artist s) = Inr artist \<Longrightarrow>
   dict_get (current_library s) artist = Inr als \<Longrightarrow>
   draw_panes s = Inr \<lparr>visible_artists = py_slice (current_artists s) (artist_offset s) (artist_offset s + max_rows (layout s)),
       all_songs_by_artist = flatten_album als,
       visible_songs = py_slice (flatten_album als) (song_offset s) (song_offset s + max_rows (layout s))\<rparr>"
  unfolding draw_panes_def Let_def by simp

lemma draw_panes_ok:
  assumes ok: "session_ok s"
  shows "\<exists>v. draw_panes s = Inr v \<and>
     visible_artists v =
       py_slice (current_artists s) (artist_offset s) (artist_offset s + max_rows (layout s)) \<and>
     visible_songs v =
       py_slice (all_songs_by_artist v) (song_offset s) (song_offset s + max_rows (layout s))"
proof -
  define va where
    "va = py_slice (current_artists s) (artist_offset s) (artist_offset s + max_rows (layout s))"
  show ?thesis
  proof (cases "va \<noteq> [] \<and> selected_artist s < int (length va)")
    case True
    have nonneg: "0 \<le> selected_artist s"
      using ok by (simp add: session_ok_def)
    have idx: "py_index va (selected_artist s) = Inr (va ! nat (selected_artist s))"
      by (rule py_index_in_range [OF nonneg conjunct2 [OF True]])
    have "nat (selected_artist s) < length va"
      using True nonneg by linarith
    then have m: "va ! nat (selected_artist s) \<in> set va"
      by (rule nth_mem)
    have "set va \<subseteq> set (current_artists s)"
      unfolding va_def by (rule set_py_slice)
    then have "va ! nat (selected_artist s) \<in> set (current_artists s)"
      using m by (rule subsetD)
    with current_artists_keys [OF ok]
    have k: "va ! nat (selected_artist s) \<in> set (keys (current_library s))"
      by (rule subsetD)
    from dict_get_key [OF k] obtain als
      where g: "dict_get (current_library s) (va ! nat (selected_artist s)) = Inr als" ..
    have "draw_panes s = Inr \<lparr>visible_artists = va,
       all_songs_by_artist = flatten_album als,
       visible_songs = py_slice (flatten_album als) (song_offset s) (song_offset s + max_rows (layout s))\<rparr>"
      unfolding va_def
      by (rule draw_panes_then [OF conjunct1 [OF True [unfolded va_def]]
            conjunct2 [OF True [unfolded va_def]] idx [unfolded va_def] g [unfolded va_def]])
    then show ?thesis
      unfolding va_def [symmetric] by simp
  next
    case False
    then have "draw_panes s = Inr \<lparr>visible_artists = va, all_songs_by_artist = [], visible_songs = []\<rparr>"
      unfolding va_def by (rule draw_panes_else)
    then show ?thesis
      unfolding va_def [symmetric] by (simp add: py_slice_Nil)
  qed
qed

lemma session_ok_resize: "session_ok s \<Longrightarrow> session_ok (handle_resize inp s)"
  by (simp add: session_ok_def handle_resize_def reset_cursors_def)

lemma session_ok_call_player: "session_ok (call_player cs s) = session_ok s"
  by (simp add: session_ok_def call_player_def)

lemma keys_dict_set: "set (keys (dict_set k v d)) = insert k (set (keys d))"
  by (induction d) (auto simp: keys_def)

lemma search_step_names:
  "set (snd acc) \<subseteq> set (keys (fst acc)) \<Longrightarrow>
   set (snd (search_step q item acc)) \<subseteq> set (keys (fst (search_step q item acc)))"
  by (auto simp: search_step_def Let_def keys_dict_set)

lemma fold_search_step_names:
  "set (snd acc) \<subseteq> set (keys (fst acc)) \<Longrightarrow>
   set (snd (fold (search_step q) lib acc)) \<subseteq> set (keys (fst (fold (search_step q) lib acc)))"
proof (induction lib arbitrary: acc)
  case Nil
  then show ?case by simp
next
  case (Cons item lib)
  from Cons.prems have "set (snd (search_step q item acc)) \<subseteq> set (keys (fst (search_step q item acc)))"
    by (rule search_step_names)
  then show ?case
    using Cons.IH by simp
qed

lemma search_library_names:
  "set (snd (search_library lib q)) \<subseteq> set (keys (fst (search_library lib q)))"
proof (cases "q = []")
  case True
  then show ?thesis by (simp add: search_library_def)
next
  case False
  have "set (snd (fold (search_step (lower q)) lib ([], []))) \<subseteq>
        set (keys (fst (fold (search_step (lower q)) lib ([], []))))"
    by (rule fold_search_step_names) simp
  with False show ?thesis by (simp add: search_library_def)
qed

lemma session_ok_clear_filter: "session_ok s \<Longrightarrow> session_ok (clear_filter s)"
  by (simp add: session_ok_def clear_filter_def reset_cursors_def)

lemma session_ok_search_key: "session_ok s \<Longrightarrow> session_ok (handle_search_key k s)"
  using search_library_names [of "library s" "strip (search_query s)"]
  by (simp add: session_ok_def handle_search_key_def clear_filter_def reset_cursors_def Let_def)

lemma session_ok_nav_up: "session_ok s \<Longrightarrow> session_ok (nav_up s)"
  by (simp add: session_ok_def nav_up_def Let_def)

lemma session_ok_nav_down: "session_ok s \<Longrightarrow> session_ok (nav_down s)"
  by (simp add: session_ok_def nav_down_def Let_def)

lemma session_ok_nav_left: "session_ok s \<Longrightarrow> session_ok (nav_left s)"
  by (simp add: session_ok_def nav_left_def)

lemma session_ok_nav_right: "session_ok s \<Longrightarrow> session_ok (nav_right v s)"
  by (simp add: session_ok_def nav_right_def Let_def)

lemma session_ok_seek_to: "session_ok s \<Longrightarrow> session_ok (seek_to t s)"
  by (simp add: session_ok_def seek_to_def call_player_def)

lemma play_selected_ok:
  assumes ok: "session_ok s"
  shows "\<exists>s'. play_selected v s = Inr s' \<and> session_ok s'"
proof (cases "visible_songs v \<noteq> [] \<and> selected_song s < int (length (visible_songs v))")
  case True
  have ss: "0 \<le> selected_song s" and sa: "0 \<le> selected_artist s"
    using ok by (simp_all add: session_ok_def)
  have i1: "py_index (visible_songs v) (selected_song s) =
      Inr (visible_songs v ! nat (selected_song s))"
    by (rule py_index_in_range [OF ss conjunct2 [OF True]])
  show ?thesis
  proof (cases "visible_artists v \<noteq> [] \<and> selected_artist s < int (length (visible_artists v))")
    case va: True
    have i2: "py_index (visible_artists v) (selected_artist s) =
        Inr (visible_artists v ! nat (selected_artist s))"
      by (rule py_index_in_range [OF sa conjunct2 [OF va]])
    show ?thesis
      using True va ok
      by (simp add: play_selected_def i1 i2 session_ok_def call_player_def)
  next
    case False
    then show ?thesis
      using True ok
      by (auto simp: play_selected_def i1 session_ok_def call_player_def)
  qed
next
  case False
  then show ?thesis
    using ok by (auto simp: play_selected_def)
qed

lemma session_ok_volume: "session_ok (s\<lparr>volume := n\<rparr>) = session_ok s"
  by (simp add: session_ok_def)

lemma session_ok_repeat: "session_ok (s\<lparr>repeat := b\<rparr>) = session_ok s"
  by (simp add: session_ok_def)

lemma session_ok_search_active: "session_ok (s\<lparr>search_active := b\<rparr>) = session_ok s"
  by (simp add: session_ok_def)

lemma handle_key_ok:
  assumes ok: "session_ok s"
  shows "outcome_ok (handle_key inp v s)"
proof -
  define s1 where
    "s1 = (if key inp = ord CHR ''c'' \<and> search_query s \<noteq> [] then clear_filter s else s)"
  have ok1: "session_ok s1"
    using ok by (simp add: s1_def session_ok_clear_filter)
  from play_selected_ok [OF ok1] obtain s' where
    p: "play_selected v s1 = Inr s'" "session_ok s'" by blast
  show ?thesis
    unfolding handle_key_def Let_def s1_def [symmetric]
    using ok ok1 p
    by (simp add: outcome_ok_def session_ok_nav_up session_ok_nav_down session_ok_nav_left
          session_ok_nav_right session_ok_seek_to session_ok_call_player session_ok_volume
          session_ok_repeat session_ok_search_active)
qed

lemma repeat_calls_resize: "repeat_calls inp (handle_resize inp' s) = repeat_calls inp s"
  by (simp add: repeat_calls_def handle_resize_def reset_cursors_def split: option.splits)

lemma search_active_resize: "search_active (handle_resize inp s) = search_active s"
  by (simp add: handle_resize_def reset_cursors_def)

lemma search_active_call_player: "search_active (call_player cs s) = search_active s"
  by (simp add: call_player_def)

lemma session_ok_before_key: "session_ok s \<Longrightarrow> session_ok (before_key inp s)"
  by (simp add: before_key_def session_ok_call_player session_ok_resize)

lemma tick_searching:
  assumes ok: "session_ok s" and act: "search_active s"
  shows "tick inp s = Running (handle_search_key (key inp) (before_key inp s))"
proof -
  from draw_panes_ok [OF session_ok_resize [OF ok]] obtain v
    where "draw_panes (handle_resize inp s) = Inr v" by blast
  then show ?thesis
    using act
    by (simp add: tick_def Let_def before_key_def repeat_calls_resize search_active_resize
          search_active_call_player)
qed

lemma tick_browsing:
  assumes ok: "session_ok s" and act: "\<not> search_active s"
  shows "\<exists>v. draw_panes (handle_resize inp s) = Inr v \<and>
             tick inp s = handle_key inp v (before_key inp s)"
proof -
  from draw_panes_ok [OF session_ok_resize [OF ok]] obtain v
    where "draw_panes (handle_resize inp s) = Inr v" by blast
  then show ?thesis
    using act
    by (simp add: tick_def Let_def before_key_def repeat_calls_resize search_active_resize
          search_active_call_player)
qed

lemma tick_ok:
  assumes ok: "session_ok s"
  shows "outcome_ok (tick inp s)"
proof (cases "search_active s")
  case True
  show ?thesis
    unfolding tick_searching [OF ok True]
    by (simp add: outcome_ok_def session_ok_search_key session_ok_before_key [OF ok])
next
  case False
  from tick_browsing [OF ok False] obtain v where
    "tick inp s = handle_key inp v (before_key inp s)" by blast
  then show ?thesis
    using handle_key_ok [OF session_ok_before_key [OF ok]] by simp
qed

lemma run_ok: "session_ok s \<Longrightarrow> outcome_ok (run inps s)"
proof (induction inps arbitrary: s)
  case Nil
  then show ?case by (simp add: outcome_ok_def)
next
  case (Cons inp inps)
  have t: "outcome_ok (tick inp s)"
    by (rule tick_ok [OF Cons.prems])
  show ?case
    using t Cons.IH by (cases "tick inp s") (simp_all add: outcome_ok_def)
qed

lemma session_ok_init: "session_ok (init_state lib h w)"
  by (simp add: session_ok_def init_state_def)

section \<open>Properties of one iteration\<close>

lemma ord_values:
  "ord CHR ''/'' = 47" "ord CHR ''c'' = 99" "ord CHR ''='' = 61" "ord CHR ''-'' = 45"
  "ord CHR '','' = 44" "ord CHR ''.'' = 46" "ord CHR ''<'' = 60" "ord CHR ''>'' = 62"
  "ord CHR ''p'' = 112" "ord CHR ''r'' = 114" "ord CHR ''q'' = 113"
  by (simp_all add: ord_def)

lemma chr_q: "chr 113 = CHR ''q''"
  by (simp add: chr_def char_of_def)

lemma strip_Nil: "strip [] = []"
  by (simp add: strip_def)

lemma strip_ex: "strip ''  ab c '' = ''ab c''"
  by (simp add: strip_def is_space_def)

lemma before_key_fields:
  "library (before_key inp s) = library s"
  "artists (before_key inp s) = artists s"
  "curr_song (before_key inp s) = curr_song s"
  "curr_artist (before_key inp s) = curr_artist s"
  "playing (before_key inp s) = playing s"
  "repeat (before_key inp s) = repeat s"
  "search_active (before_key inp s) = search_active s"
  "search_query (before_key inp s) = search_query s"
  "filtered_library (before_key inp s) = filtered_library s"
  "filtered_artists (before_key inp s) = filtered_artists s"
  "volume (before_key inp s) = volume s"
  "player_calls (before_key inp s) = player_calls s @ repeat_calls inp s"
  by (simp_all add: before_key_def call_player_def handle_resize_def reset_cursors_def)

lemma handle_resize_idem: "handle_resize inp (handle_resize inp s) = handle_resize inp s"
  by (simp add: handle_resize_def)

lemma handle_key_up: "key inp = KEY_UP \<Longrightarrow> handle_key inp v s = Running (nav_up s)"
  by (simp add: handle_key_def Let_def ord_values KEY_UP_def)

lemma handle_key_down: "key inp = KEY_DOWN \<Longrightarrow> handle_key inp v s = Running (nav_down s)"
  by (simp add: handle_key_def Let_def ord_values KEY_UP_def KEY_DOWN_def)

lemma handle_key_left: "key inp = KEY_LEFT \<Longrightarrow> handle_key inp v s = Running (nav_left s)"
  by (simp add: handle_key_def Let_def ord_values KEY_UP_def KEY_DOWN_def KEY_LEFT_def)

lemma handle_key_right: "key inp = KEY_RIGHT \<Longrightarrow> handle_key inp v s = Running (nav_right v s)"
  by (simp add: handle_key_def Let_def ord_values KEY_UP_def KEY_DOWN_def KEY_LEFT_def
        KEY_RIGHT_def)

lemma handle_key_quit: "key inp = ord CHR ''q'' \<Longrightarrow> handle_key inp v s = Exited s"
  by (simp add: handle_key_def Let_def ord_values KEY_UP_def KEY_DOWN_def KEY_LEFT_def
        KEY_RIGHT_def KEY_ENTER_def)

lemma handle_key_volume_up:
  "key inp = ord CHR ''='' \<Longrightarrow>
   handle_key inp v s =
     Running (call_player [AudioSetVolume (min 100 (volume s + 5))]
                (s\<lparr>volume := min 100 (volume s + 5)\<rparr>))"
  by (simp add: handle_key_def Let_def ord_values KEY_UP_def KEY_DOWN_def KEY_LEFT_def
        KEY_RIGHT_def KEY_ENTER_def)

lemma handle_key_volume_down:
  "key inp = ord CHR ''-'' \<Longrightarrow>
   handle_key inp v s =
     Running (call_player [AudioSetVolume (max 0 (volume s - 5))]
                (s\<lparr>volume := max 0 (volume s - 5)\<rparr>))"
  by (simp add: handle_key_def Let_def ord_values KEY_UP_def KEY_DOWN_def KEY_LEFT_def
        KEY_RIGHT_def KEY_ENTER_def)

lemma handle_key_seek:
  "key inp = ord CHR '','' \<Longrightarrow>
     handle_key inp v s = Running (seek_to (max 0 (player_time inp - 5000)) s)"
  "key inp = ord CHR ''.'' \<Longrightarrow>
     handle_key inp v s = Running (seek_to (min (player_length inp) (player_time inp + 5000)) s)"
  "key inp = ord CHR ''<'' \<Longrightarrow>
     handle_key inp v s = Running (seek_to (max 0 (player_time inp - 10000)) s)"
  "key inp = ord CHR ''>'' \<Longrightarrow>
     handle_key inp v s = Running (seek_to (min (player_length inp) (player_time inp + 10000)) s)"
  by (simp_all add: handle_key_def Let_def ord_values KEY_UP_def KEY_DOWN_def KEY_LEFT_def
        KEY_RIGHT_def KEY_ENTER_def)

lemma handle_key_not_quit:
  assumes "key inp \<noteq> ord CHR ''q''"
  shows "handle_key inp v s \<noteq> Exited s'"
proof -
  define s1 where
    "s1 = (if key inp = ord CHR ''c'' \<and> search_query s \<noteq> [] then clear_filter s else s)"
  show ?thesis
    unfolding handle_key_def Let_def s1_def [symmetric]
    using assms by (simp split: sum.splits)
qed

lemma session_ok_example_searching: "session_ok example_searching"
  by (simp add: example_searching_def session_ok_def init_state_def)

lemma session_ok_example_playing: "session_ok example_playing"
  by (simp add: example_playing_def session_ok_def init_state_def)

lemma example_searching_reached:
  "run (map press [47, 98, 106, 111, 114, 107]) (init_state example_library 24 80) =
     Running example_searching"
  by code_simp

lemma example_playing_reached:
  "run (map press [KEY_RIGHT, 10]) (init_state example_library 24 80) = Running example_playing"
  by code_simp

lemma handle_key_unbound:
  assumes "key inp < 0 \<or> 343 < key inp"
  shows "handle_key inp v s = Running s"
proof -
  have "key inp \<noteq> 47" "key inp \<noteq> 99" "key inp \<noteq> 259" "key inp \<noteq> 258" "key inp \<noteq> 260"
    "key inp \<noteq> 261" "key inp \<noteq> 343" "key inp \<noteq> 10" "key inp \<noteq> 13" "key inp \<noteq> 61"
    "key inp \<noteq> 45" "key inp \<noteq> 44" "key inp \<noteq> 46" "key inp \<noteq> 60" "key inp \<noteq> 62"
    "key inp \<noteq> 112" "key inp \<noteq> 114" "key inp \<noteq> 113"
    using assms by auto
  then show ?thesis
    by (simp add: handle_key_def Let_def ord_values KEY_UP_def KEY_DOWN_def KEY_LEFT_def
          KEY_RIGHT_def KEY_ENTER_def)
qed

lemma handle_search_key_unbound:
  assumes "k < 0 \<or> 343 < k"
  shows "handle_search_key k s = s"
proof -
  have "k \<noteq> 27" "k \<noteq> 343" "k \<noteq> 10" "k \<noteq> 13" "k \<noteq> 263" "k \<noteq> 8" "k \<noteq> 127"
    "\<not> (32 \<le> k \<and> k \<le> 126)"
    using assms by auto
  then show ?thesis
    by (simp add: handle_search_key_def KEY_ENTER_def KEY_BACKSPACE_def)
qed

lemma cursors_before_key:
  "selected_artist (before_key inp s) = selected_artist (handle_resize inp s)"
  "artist_offset (before_key inp s) = artist_offset (handle_resize inp s)"
  "selected_song (before_key inp s) = selected_song (handle_resize inp s)"
  "song_offset (before_key inp s) = song_offset (handle_resize inp s)"
  "layout (before_key inp s) = layout (handle_resize inp s)"
  "height (before_key inp s) = height (handle_resize inp s)"
  "width (before_key inp s) = width (handle_resize inp s)"
  by (simp_all add: before_key_def call_player_def)

lemma tick_unbound_key:
  assumes ok: "session_ok s" and k: "key inp < 0 \<or> 343 < key inp"
  shows "tick inp s = Running (before_key inp s)"
proof (cases "search_active s")
  case True
  show ?thesis
    unfolding tick_searching [OF ok True] handle_search_key_unbound [OF k] by (rule refl)
next
  case False
  from tick_browsing [OF ok False, of inp] obtain v where
    "tick inp s = handle_key inp v (before_key inp s)" by blast
  then show ?thesis
    by (simp add: handle_key_unbound [OF k])
qed

text \<open>
  C5. On an iteration whose terminal size differs from the last known size, whatever the
  mode, the resize step sets both cursors and both offsets to zero, records the new size
  and computes the layout anew from it, and leaves the mode as it is; the rest of the
  iteration goes on from that state, and when the key of the iteration is none that the
  loop handles (no key, or the resize key of curses) the iteration ends in it.
\<close>

theorem resize_resets_cursors:
  assumes changed: "(term_height inp, term_width inp) \<noteq> (height s, width s)"
  shows "selected_artist (handle_resize inp s) = 0 \<and> artist_offset (handle_resize inp s) = 0 \<and>
         selected_song (handle_resize inp s) = 0 \<and> song_offset (handle_resize inp s) = 0 \<and>
         height (handle_resize inp s) = term_height inp \<and>
         width (handle_resize inp s) = term_width inp \<and>
         layout (handle_resize inp s) = compute_layout (term_height inp) (term_width inp) \<and>
         search_active (handle_resize inp s) = search_active s \<and>
         tick inp s = tick inp (handle_resize inp s) \<and>
         (session_ok s \<and> (key inp < 0 \<or> 343 < key inp) \<longrightarrow>
            (\<exists>s'. tick inp s = Running s' \<and>
               selected_artist s' = 0 \<and> artist_offset s' = 0 \<and>
               selected_song s' = 0 \<and> song_offset s' = 0 \<and>
               height s' = term_height inp \<and> width s' = term_width inp \<and>
               layout s' = compute_layout (term_height inp) (term_width inp) \<and>
               search_active s' = search_active s))"
proof -
  have r: "selected_artist (handle_resize inp s) = 0 \<and> artist_offset (handle_resize inp s) = 0 \<and>
         selected_song (handle_resize inp s) = 0 \<and> song_offset (handle_resize inp s) = 0 \<and>
         height (handle_resize inp s) = term_height inp \<and>
         width (handle_resize inp s) = term_width inp \<and>
         layout (handle_resize inp s) = compute_layout (term_height inp) (term_width inp) \<and>
         search_active (handle_resize inp s) = search_active s"
    using changed by (simp add: handle_resize_def reset_cursors_def)
  have t: "tick inp s = tick inp (handle_resize inp s)"
    by (simp add: tick_def handle_resize_idem)
  have "\<exists>s'. tick inp s = Running s' \<and>
               selected_artist s' = 0 \<and> artist_offset s' = 0 \<and>
               selected_song s' = 0 \<and> song_offset s' = 0 \<and>
               height s' = term_height inp \<and> width s' = term_width inp \<and>
               layout s' = compute_layout (term_height inp) (term_width inp) \<and>
               search_active s' = search_active s"
    if "session_ok s \<and> (key inp < 0 \<or> 343 < key inp)"
    using tick_unbound_key [of s inp] that r
    by (simp add: cursors_before_key before_key_fields)
  with r t show ?thesis
    by blast
qed

theorem resize_resets_cursors_witness:
  "(term_height resized, term_width resized) \<noteq> (height example_playing, width example_playing) \<and>
   session_ok example_playing \<and> key resized = - 1 \<and>
   selected_song example_playing = 1 \<and>
   selected_song (handle_resize resized example_playing) = 0 \<and>
   song_offset (handle_resize resized example_playing) = 0 \<and>
   selected_artist (handle_resize resized example_playing) = 0 \<and>
   artist_offset (handle_resize resized example_playing) = 0 \<and>
   layout (handle_resize resized example_playing) = compute_layout 30 100 \<and>
   max_rows (compute_layout 30 100) = 18 \<and>
   (\<exists>s'. tick resized example_playing = Running s' \<and> selected_song s' = 0 \<and>
      song_offset s' = 0 \<and> selected_artist s' = 0 \<and> artist_offset s' = 0 \<and>
      layout s' = compute_layout 30 100)"
proof -
  have h: "(term_height resized, term_width resized) \<noteq>
           (height example_playing, width example_playing)"
    by (simp add: resized_def example_playing_def init_state_def)
  have f: "term_height resized = 30" "term_width resized = 100" "key resized = - 1"
       "selected_song example_playing = 1"
    by (simp_all add: resized_def example_playing_def init_state_def)
  have m: "max_rows (compute_layout 30 100) = 18"
    by (simp add: compute_layout_def Let_def)
  have k: "session_ok example_playing \<and> (key resized < 0 \<or> 343 < key resized)"
    using session_ok_example_playing by (simp add: f)
  note t = resize_resets_cursors [OF h]
  from t k obtain s' where s': "tick resized example_playing = Running s'"
      "selected_artist s' = 0" "artist_offset s' = 0" "selected_song s' = 0" "song_offset s' = 0"
      "layout s' = compute_layout (term_height resized) (term_width resized)"
    by blast
  then have "\<exists>s'. tick resized example_playing = Running s' \<and> selected_song s' = 0 \<and>
      song_offset s' = 0 \<and> selected_artist s' = 0 \<and> artist_offset s' = 0 \<and>
      layout s' = compute_layout 30 100"
    by (simp add: f)
  with t f m h session_ok_example_playing show ?thesis
    by simp
qed

text \<open>
  C4. In search mode, Enter (\<open>KEY_ENTER\<close>, 10 or 13) ends the iteration in normal mode.
  When the query stripped of whitespace is not empty, the filtered index and artist list
  are the result of the search for the stripped query, they are the view shown, and both
  cursors and both offsets are zero. When the stripped query is empty, the filtered index
  and artist list, and the view shown, are what they were.
\<close>

theorem confirm_in_search:
  assumes ok: "session_ok s" and act: "search_active s"
    and k: "key inp = KEY_ENTER \<or> key inp = 10 \<or> key inp = 13"
  shows "\<exists>s'. tick inp s = Running s' \<and> \<not> search_active s' \<and>
           search_query s' = search_query s \<and>
           (strip (search_query s) \<noteq> [] \<longrightarrow>
              (filtered_library s', filtered_artists s') =
                 search_library (library s) (strip (search_query s)) \<and>
              current_library s' = filtered_library s' \<and>
              current_artists s' = filtered_artists s' \<and>
              selected_artist s' = 0 \<and> artist_offset s' = 0 \<and>
              selected_song s' = 0 \<and> song_offset s' = 0) \<and>
           (strip (search_query s) = [] \<longrightarrow>
              filtered_library s' = filtered_library s \<and>
              filtered_artists s' = filtered_artists s \<and>
              current_library s' = current_library s \<and>
              current_artists s' = current_artists s)"
proof -
  define s2 where "s2 = before_key inp s"
  have f: "search_query s2 = search_query s" "library s2 = library s"
      "filtered_library s2 = filtered_library s" "filtered_artists s2 = filtered_artists s"
      "artists s2 = artists s"
    by (simp_all add: s2_def before_key_fields)
  have ne: "search_query s \<noteq> []" if "strip (search_query s) \<noteq> []"
    using that strip_Nil by auto
  have t: "tick inp s = Running (handle_search_key (key inp) s2)"
    unfolding s2_def by (rule tick_searching [OF ok act])
  have k27: "key inp \<noteq> 27"
    using k by (auto simp: KEY_ENTER_def)
  show ?thesis
  proof (cases "strip (search_query s) = []")
    case True
    then have "handle_search_key (key inp) s2 = s2\<lparr>search_active := False\<rparr>"
      using k k27 by (simp add: handle_search_key_def f)
    then show ?thesis
      using True t by (simp add: f current_library_def current_artists_def)
  next
    case False
    then have "handle_search_key (key inp) s2 =
        (reset_cursors s2)\<lparr>search_active := False,
           filtered_library := fst (search_library (library s) (strip (search_query s))),
           filtered_artists := snd (search_library (library s) (strip (search_query s)))\<rparr>"
      using k k27 by (simp add: handle_search_key_def f Let_def)
    then show ?thesis
      using False ne [OF False] t
      by (simp add: f current_library_def current_artists_def reset_cursors_def)
  qed
qed

theorem confirm_in_search_witness:
  "session_ok example_searching \<and> search_active example_searching \<and>
   key (press 10) = 10 \<and> strip (search_query example_searching) = ''bjork'' \<and>
   (\<exists>s'. tick (press 10) example_searching = Running s' \<and> \<not> search_active s' \<and>
      filtered_artists s' = [''Bjork''] \<and> current_artists s' = [''Bjork''] \<and>
      selected_artist s' = 0 \<and> artist_offset s' = 0)"
proof -
  have act: "search_active example_searching"
    by (simp add: example_searching_def)
  have k: "key (press 10) = KEY_ENTER \<or> key (press 10) = 10 \<or> key (press 10) = 13"
    by (simp add: press_def)
  have q: "strip (search_query example_searching) = ''bjork''"
    by (simp add: example_searching_def strip_def is_space_def)
  have r: "search_library (library example_searching) ''bjork'' =
      ([(''Bjork'', [(''Post'', [''/m/Bjork/Post/hyper.mp3''])])], [''Bjork''])"
    unfolding example_searching_def init_state_def by code_simp
  from confirm_in_search [OF session_ok_example_searching act k] obtain s' where
    s': "tick (press 10) example_searching = Running s'" "\<not> search_active s'"
      "strip (search_query example_searching) \<noteq> [] \<longrightarrow>
         (filtered_library s', filtered_artists s') =
            search_library (library example_searching) (strip (search_query example_searching)) \<and>
         current_library s' = filtered_library s' \<and>
         current_artists s' = filtered_artists s' \<and>
         selected_artist s' = 0 \<and> artist_offset s' = 0 \<and>
         selected_song s' = 0 \<and> song_offset s' = 0"
    by blast
  from s'(3) q r have "filtered_artists s' = [''Bjork'']" "current_artists s' = [''Bjork'']"
      "selected_artist s' = 0" "artist_offset s' = 0"
    by simp_all
  with s'(1,2) session_ok_example_searching act q show ?thesis
    by (simp add: press_def)
qed

text \<open>
  C8. In search mode an iteration never leaves the loop: it stays in search mode unless
  the key is Escape or Enter, it appends every printable key to the query, the quit key
  \<open>q\<close> among them. The loop is left only in normal mode and only by \<open>q\<close>, and there
  \<open>q\<close> does leave it.
\<close>

theorem search_mode_captures_quit:
  "(session_ok s \<and> search_active s \<longrightarrow>
      (\<exists>s'. tick inp s = Running s' \<and>
         (search_active s' \<longleftrightarrow>
            \<not> (key inp = 27 \<or> key inp = KEY_ENTER \<or> key inp = 10 \<or> key inp = 13)) \<and>
         (32 \<le> key inp \<and> key inp \<le> 126 \<longrightarrow>
            search_query s' = search_query s @ [chr (key inp)]) \<and>
         (key inp = ord CHR ''q'' \<longrightarrow> search_query s' = search_query s @ ''q''))) \<and>
   (\<forall>s'. tick inp s = Exited s' \<longrightarrow> \<not> search_active s \<and> key inp = ord CHR ''q'') \<and>
   (session_ok s \<and> \<not> search_active s \<and> key inp = ord CHR ''q'' \<longrightarrow>
      (\<exists>s'. tick inp s = Exited s'))"
proof (intro conjI impI allI)
  assume a: "session_ok s \<and> search_active s"
  define s2 where "s2 = before_key inp s"
  have f: "search_query s2 = search_query s" "search_active s2 = search_active s"
    by (simp_all add: s2_def before_key_fields)
  have t: "tick inp s = Running (handle_search_key (key inp) s2)"
    unfolding s2_def using a by (intro tick_searching) simp_all
  have 1: "search_active (handle_search_key (key inp) s2) \<longleftrightarrow>
      \<not> (key inp = 27 \<or> key inp = KEY_ENTER \<or> key inp = 10 \<or> key inp = 13)"
    using a by (simp add: handle_search_key_def f Let_def clear_filter_def reset_cursors_def)
  have 2: "search_query (handle_search_key (key inp) s2) = search_query s @ [chr (key inp)]"
    if "32 \<le> key inp \<and> key inp \<le> 126"
    using that
    by (auto simp: handle_search_key_def f KEY_ENTER_def KEY_BACKSPACE_def)
  have 3: "search_query (handle_search_key (key inp) s2) = search_query s @ ''q''"
    if "key inp = ord CHR ''q''"
    using 2 that by (simp add: ord_values chr_q)
  show "\<exists>s'. tick inp s = Running s' \<and>
         (search_active s' \<longleftrightarrow>
            \<not> (key inp = 27 \<or> key inp = KEY_ENTER \<or> key inp = 10 \<or> key inp = 13)) \<and>
         (32 \<le> key inp \<and> key inp \<le> 126 \<longrightarrow>
            search_query s' = search_query s @ [chr (key inp)]) \<and>
         (key inp = ord CHR ''q'' \<longrightarrow> search_query s' = search_query s @ ''q'')"
    using t 1 2 3 by simp
next
  fix s'
  assume e: "tick inp s = Exited s'"
  define s1 where "s1 = handle_resize inp s"
  define s2 where "s2 = call_player (repeat_calls inp s1) s1"
  have act: "search_active s2 = search_active s"
    by (simp add: s2_def s1_def search_active_call_player search_active_resize)
  from e obtain v where v: "draw_panes s1 = Inr v"
    unfolding tick_def Let_def s1_def [symmetric]
    by (cases "draw_panes s1") simp_all
  have e2: "(if search_active s then Running (handle_search_key (key inp) s2)
             else handle_key inp v s2) = Exited s'"
    using e v unfolding tick_def Let_def s1_def [symmetric] s2_def [symmetric]
    by (simp add: act)
  then have na: "\<not> search_active s"
    by (cases "search_active s") simp_all
  with e2 have hk: "handle_key inp v s2 = Exited s'"
    by simp
  have "key inp = ord CHR ''q''"
    using hk handle_key_not_quit [of inp v s2 s'] by blast
  with na show "\<not> search_active s" and "key inp = ord CHR ''q''"
    by simp_all
next
  assume a: "session_ok s \<and> \<not> search_active s \<and> key inp = ord CHR ''q''"
  then obtain v where t: "tick inp s = handle_key inp v (before_key inp s)"
    using tick_browsing [of s inp] by blast
  have "handle_key inp v (before_key inp s) = Exited (before_key inp s)"
    using a by (intro handle_key_quit) simp
  with t show "\<exists>s'. tick inp s = Exited s'"
    by simp
qed

theorem search_mode_captures_quit_witness:
  "session_ok example_searching \<and> search_active example_searching \<and>
   key (press (ord CHR ''q'')) = ord CHR ''q'' \<and>
   (\<exists>s'. tick (press (ord CHR ''q'')) example_searching = Running s' \<and> search_active s' \<and>
      search_query s' = ''bjorkq'') \<and>
   session_ok (init_state example_library 24 80) \<and>
   \<not> search_active (init_state example_library 24 80) \<and>
   (\<exists>s'. tick (press (ord CHR ''q'')) (init_state example_library 24 80) = Exited s')"
proof -
  have act: "search_active example_searching"
    by (simp add: example_searching_def)
  have k: "key (press (ord CHR ''q'')) = ord CHR ''q''"
    by (simp add: press_def)
  have q: "search_query example_searching = ''bjork''"
    by (simp add: example_searching_def)
  have nk: "\<not> (key (press (ord CHR ''q'')) = 27 \<or> key (press (ord CHR ''q'')) = KEY_ENTER \<or>
      key (press (ord CHR ''q'')) = 10 \<or> key (press (ord CHR ''q'')) = 13)"
    by (simp add: press_def ord_values KEY_ENTER_def)
  have nb: "\<not> search_active (init_state example_library 24 80)"
    by (simp add: init_state_def)
  note a = search_mode_captures_quit [of example_searching "press (ord CHR ''q'')"]
  note b = search_mode_captures_quit [of "init_state example_library 24 80" "press (ord CHR ''q'')"]
  from a session_ok_example_searching act k nk q
  have 1: "\<exists>s'. tick (press (ord CHR ''q'')) example_searching = Running s' \<and> search_active s' \<and>
      search_query s' = ''bjorkq''"
    by auto
  from b session_ok_init nb k
  have 2: "\<exists>s'. tick (press (ord CHR ''q'')) (init_state example_library 24 80) = Exited s'"
    by blast
  from 1 2 session_ok_example_searching act k nb session_ok_init show ?thesis
    by blast
qed

text \<open>
  C9. In normal mode, Up and Down set the song cursor and the song offset to zero, whether
  the artist cursor moves or not, and leave the mode, the query, the current track and
  artist, \<open>playing\<close>, \<open>repeat\<close>, the volume, the index and the filtered view as they
  were.
\<close>

theorem artist_nav_resets_song_cursor:
  assumes ok: "session_ok s" and browsing: "\<not> search_active s"
    and k: "key inp = KEY_UP \<or> key inp = KEY_DOWN"
  shows "\<exists>s'. tick inp s = Running s' \<and> selected_song s' = 0 \<and> song_offset s' = 0 \<and>
           search_active s' = search_active s \<and> search_query s' = search_query s \<and>
           curr_song s' = curr_song s \<and> curr_artist s' = curr_artist s \<and>
           playing s' = playing s \<and> repeat s' = repeat s \<and> volume s' = volume s \<and>
           library s' = library s \<and> artists s' = artists s \<and>
           filtered_library s' = filtered_library s \<and>
           filtered_artists s' = filtered_artists s"
proof -
  define s2 where "s2 = before_key inp s"
  note f = before_key_fields [of inp s, folded s2_def]
  obtain v where t: "tick inp s = handle_key inp v s2"
    using tick_browsing [OF ok browsing, of inp] unfolding s2_def by blast
  have hk: "handle_key inp v s2 = Running (if key inp = KEY_UP then nav_up s2 else nav_down s2)"
    using k handle_key_up [of inp v s2] handle_key_down [of inp v s2] by auto
  show ?thesis
    unfolding t hk
    by (simp add: nav_up_def nav_down_def Let_def f)
qed

theorem artist_nav_resets_song_cursor_witness:
  "session_ok example_playing \<and> \<not> search_active example_playing \<and>
   key (press KEY_UP) = KEY_UP \<and>
   selected_song example_playing = 1 \<and> selected_artist example_playing = 0 \<and>
   (\<exists>s'. tick (press KEY_UP) example_playing = Running s' \<and>
      selected_song s' = 0 \<and> song_offset s' = 0 \<and> selected_artist s' = 0 \<and>
      curr_song s' = Some ''/m/Abba/Gold/b.mp3'' \<and> volume s' = 50)"
proof -
  have nb: "\<not> search_active example_playing"
    by (simp add: example_playing_def init_state_def)
  have k: "key (press KEY_UP) = KEY_UP \<or> key (press KEY_UP) = KEY_DOWN"
    by (simp add: press_def)
  have f: "selected_song example_playing = 1" "selected_artist example_playing = 0"
      "curr_song example_playing = Some ''/m/Abba/Gold/b.mp3''" "volume example_playing = 50"
    by (simp_all add: example_playing_def init_state_def)
  have t: "tick (press KEY_UP) example_playing =
      Running (example_playing\<lparr>selected_song := 0\<rparr>)"
    by code_simp
  from artist_nav_resets_song_cursor [OF session_ok_example_playing nb k] t f
  have "\<exists>s'. tick (press KEY_UP) example_playing = Running s' \<and>
      selected_song s' = 0 \<and> song_offset s' = 0 \<and> selected_artist s' = 0 \<and>
      curr_song s' = Some ''/m/Abba/Gold/b.mp3'' \<and> volume s' = 50"
    by auto
  with session_ok_example_playing nb f show ?thesis
    by (simp add: press_def)
qed

section \<open>Seeking\<close>

text \<open>
  C6, as stated, fails: after Right and Enter a track is loaded; a backward seek when the
  player reports position 9000 and length 3000 asks for 4000, which is past the length,
  and a forward seek when the player reports \<open>-1\<close> for both asks for \<open>-1\<close>.
\<close>

theorem seek_not_clamped_counterexample:
  "calls_of (run [press KEY_RIGHT, press 10, seek_back_late] (init_state example_library 24 80)) =
     [AudioSetVolume 50, SetMedia ''/m/Abba/Gold/b.mp3'', Play, SetTime 4000] \<and>
   SetTime 4000 \<noteq>
     SetTime (clamp 0 (player_length seek_back_late) (player_time seek_back_late - 5000)) \<and>
   calls_of (run [press KEY_RIGHT, press 10, seek_forward_early] (init_state example_library 24 80)) =
     [AudioSetVolume 50, SetMedia ''/m/Abba/Gold/b.mp3'', Play, SetTime (- 1)] \<and>
   SetTime (- 1) \<noteq>
     SetTime (clamp 0 (player_length seek_forward_early) (player_time seek_forward_early + 5000))"
proof -
  have a: "calls_of (run [press KEY_RIGHT, press 10, seek_back_late] (init_state example_library 24 80)) =
     [AudioSetVolume 50, SetMedia ''/m/Abba/Gold/b.mp3'', Play, SetTime 4000]"
    by code_simp
  have b: "calls_of (run [press KEY_RIGHT, press 10, seek_forward_early] (init_state example_library 24 80)) =
     [AudioSetVolume 50, SetMedia ''/m/Abba/Gold/b.mp3'', Play, SetTime (- 1)]"
    by code_simp
  have c: "clamp 0 (player_length seek_back_late) (player_time seek_back_late - 5000) = 3000"
    by (simp add: clamp_def seek_back_late_def)
  have d: "clamp 0 (player_length seek_forward_early) (player_time seek_forward_early + 5000) = 0"
    by (simp add: clamp_def seek_forward_early_def)
  show ?thesis
    unfolding c d using a b by simp
qed

text \<open>
  C6, as amended. With a track loaded, in normal mode, a backward seek asks the player for
  the position less 5 or 10 seconds, but not less than 0, and a forward seek for the
  position plus 5 or 10 seconds, but not more than the length. Whenever the player reports
  a position between 0 and the length, each request is the target clamped to the interval
  from 0 to the length.
\<close>

theorem seek_requests:
  assumes ok: "session_ok s" and browsing: "\<not> search_active s"
    and loaded: "truthy (curr_song s)"
  shows
   "(key inp = ord CHR '','' \<longrightarrow>
      (\<exists>s'. tick inp s = Running s' \<and>
         player_calls s' = player_calls s @ repeat_calls inp s @
            [SetTime (max 0 (player_time inp - 5000))])) \<and>
    (key inp = ord CHR ''.'' \<longrightarrow>
      (\<exists>s'. tick inp s = Running s' \<and>
         player_calls s' = player_calls s @ repeat_calls inp s @
            [SetTime (min (player_length inp) (player_time inp + 5000))])) \<and>
    (key inp = ord CHR ''<'' \<longrightarrow>
      (\<exists>s'. tick inp s = Running s' \<and>
         player_calls s' = player_calls s @ repeat_calls inp s @
            [SetTime (max 0 (player_time inp - 10000))])) \<and>
    (key inp = ord CHR ''>'' \<longrightarrow>
      (\<exists>s'. tick inp s = Running s' \<and>
         player_calls s' = player_calls s @ repeat_calls inp s @
            [SetTime (min (player_length inp) (player_time inp + 10000))])) \<and>
    (0 \<le> player_time inp \<and> player_time inp \<le> player_length inp \<longrightarrow>
       max 0 (player_time inp - 5000) = clamp 0 (player_length inp) (player_time inp - 5000) \<and>
       min (player_length inp) (player_time inp + 5000) =
         clamp 0 (player_length inp) (player_time inp + 5000) \<and>
       max 0 (player_time inp - 10000) = clamp 0 (player_length inp) (player_time inp - 10000) \<and>
       min (player_length inp) (player_time inp + 10000) =
         clamp 0 (player_length inp) (player_time inp + 10000))"
proof -
  obtain v where t: "tick inp s = handle_key inp v (before_key inp s)"
    using tick_browsing [OF ok browsing, of inp] by blast
  have l: "truthy (curr_song (before_key inp s))"
    using loaded by (simp add: before_key_fields)
  have sk: "player_calls (seek_to n (before_key inp s)) =
      player_calls s @ repeat_calls inp s @ [SetTime n]" for n
    using l by (simp add: seek_to_def call_player_def before_key_fields)
  show ?thesis
    unfolding t
    by (auto simp: handle_key_seek sk clamp_def)
qed

theorem seek_requests_witness:
  "session_ok example_playing \<and> \<not> search_active example_playing \<and>
   truthy (curr_song example_playing) \<and> key seek_forward_mid = ord CHR ''.'' \<and>
   0 \<le> player_time seek_forward_mid \<and> player_time seek_forward_mid \<le> player_length seek_forward_mid \<and>
   (\<exists>s'. tick seek_forward_mid example_playing = Running s' \<and>
      player_calls s' =
        [AudioSetVolume 50, SetMedia ''/m/Abba/Gold/b.mp3'', Play, SetTime 3000]) \<and>
   clamp 0 (player_length seek_forward_mid) (player_time seek_forward_mid + 5000) = 3000"
proof -
  have nb: "\<not> search_active example_playing"
    by (simp add: example_playing_def init_state_def)
  have l: "truthy (curr_song example_playing)"
    by (simp add: example_playing_def truthy_def)
  have f: "key seek_forward_mid = ord CHR ''.''" "player_time seek_forward_mid = 1000"
      "player_length seek_forward_mid = 3000"
      "player_calls example_playing = [AudioSetVolume 50, SetMedia ''/m/Abba/Gold/b.mp3'', Play]"
      "repeat_calls seek_forward_mid example_playing = []"
    by (simp_all add: seek_forward_mid_def example_playing_def init_state_def repeat_calls_def)
  note t = seek_requests [OF session_ok_example_playing nb l, of seek_forward_mid]
  from t f have 1: "\<exists>s'. tick seek_forward_mid example_playing = Running s' \<and>
      player_calls s' =
        [AudioSetVolume 50, SetMedia ''/m/Abba/Gold/b.mp3'', Play, SetTime 3000]"
    by auto
  from t f have 2: "clamp 0 (player_length seek_forward_mid) (player_time seek_forward_mid + 5000) = 3000"
    by auto
  from 1 2 session_ok_example_playing nb l f show ?thesis
    by simp
qed

section \<open>Volume\<close>

lemma volume_ok_call_player:
  "volume_ok s \<Longrightarrow> list_all volume_call_ok cs \<Longrightarrow> volume_ok (call_player cs s)"
  by (simp add: volume_ok_def call_player_def)

lemma repeat_calls_volume_ok: "list_all volume_call_ok (repeat_calls inp s)"
  by (simp add: repeat_calls_def split: option.splits)

lemma volume_ok_resize: "volume_ok (handle_resize inp s) = volume_ok s"
  by (simp add: volume_ok_def handle_resize_def reset_cursors_def)

lemma volume_ok_before_key: "volume_ok s \<Longrightarrow> volume_ok (before_key inp s)"
  unfolding before_key_def
  by (intro volume_ok_call_player) (simp_all add: volume_ok_resize repeat_calls_volume_ok)

lemma volume_ok_clear_filter: "volume_ok (clear_filter s) = volume_ok s"
  by (simp add: volume_ok_def clear_filter_def reset_cursors_def)

lemma volume_ok_search_key: "volume_ok (handle_search_key k s) = volume_ok s"
  by (simp add: volume_ok_def handle_search_key_def clear_filter_def reset_cursors_def Let_def)

lemma volume_ok_nav:
  "volume_ok (nav_up s) = volume_ok s" "volume_ok (nav_down s) = volume_ok s"
  "volume_ok (nav_left s) = volume_ok s" "volume_ok (nav_right v s) = volume_ok s"
  by (simp_all add: volume_ok_def nav_up_def nav_down_def nav_left_def nav_right_def Let_def)

lemma volume_ok_seek_to: "volume_ok (seek_to t s) = volume_ok s"
  by (simp add: volume_ok_def seek_to_def call_player_def)

lemma volume_ok_fields:
  "volume_ok (s\<lparr>search_active := b\<rparr>) = volume_ok s"
  "volume_ok (s\<lparr>repeat := b\<rparr>) = volume_ok s"
  by (simp_all add: volume_ok_def)

lemma volume_ok_set_volume:
  "0 \<le> n \<Longrightarrow> n \<le> 100 \<Longrightarrow> volume_ok s \<Longrightarrow>
   volume_ok (call_player [AudioSetVolume n] (s\<lparr>volume := n\<rparr>))"
  by (simp add: volume_ok_def call_player_def)

lemma volume_ok_pause: "volume_ok (call_player [Pause] s) = volume_ok s"
  by (simp add: volume_ok_def call_player_def)

lemma volume_ok_play_selected:
  "volume_ok s \<Longrightarrow> play_selected v s = Inr s' \<Longrightarrow> volume_ok s'"
  by (auto simp: play_selected_def volume_ok_def call_player_def split: if_splits sum.splits)

lemma handle_key_volume_ok:
  assumes ok: "volume_ok s"
  shows "outcome_volume_ok (handle_key inp v s)"
proof -
  define s1 where
    "s1 = (if key inp = ord CHR ''c'' \<and> search_query s \<noteq> [] then clear_filter s else s)"
  have ok1: "volume_ok s1"
    using ok by (simp add: s1_def volume_ok_clear_filter)
  have up: "volume_ok (call_player [AudioSetVolume (min 100 (volume s1 + 5))]
                (s1\<lparr>volume := min 100 (volume s1 + 5)\<rparr>))"
    using ok1 by (intro volume_ok_set_volume) (simp_all add: volume_ok_def)
  have down: "volume_ok (call_player [AudioSetVolume (max 0 (volume s1 - 5))]
                (s1\<lparr>volume := max 0 (volume s1 - 5)\<rparr>))"
    using ok1 by (intro volume_ok_set_volume) (simp_all add: volume_ok_def)
  have p: "outcome_volume_ok (case play_selected v s1 of Inl e \<Rightarrow> Raised e | Inr s' \<Rightarrow> Running s')"
    using volume_ok_play_selected [OF ok1, of v]
    by (cases "play_selected v s1") (simp_all add: outcome_volume_ok_def)
  show ?thesis
    unfolding handle_key_def Let_def s1_def [symmetric]
    using ok ok1 up down p
    by (simp add: outcome_volume_ok_def volume_ok_nav volume_ok_seek_to volume_ok_fields
          volume_ok_pause)
qed

lemma tick_volume_ok:
  assumes ok: "session_ok s" and vok: "volume_ok s"
  shows "outcome_volume_ok (tick inp s)"
proof (cases "search_active s")
  case True
  show ?thesis
    unfolding tick_searching [OF ok True]
    by (simp add: outcome_volume_ok_def volume_ok_search_key volume_ok_before_key [OF vok])
next
  case False
  from tick_browsing [OF ok False] obtain v where
    "tick inp s = handle_key inp v (before_key inp s)" by blast
  then show ?thesis
    using handle_key_volume_ok [OF volume_ok_before_key [OF vok]] by simp
qed

lemma run_volume_ok:
  "session_ok s \<Longrightarrow> volume_ok s \<Longrightarrow> outcome_volume_ok (run inps s)"
proof (induction inps arbitrary: s)
  case Nil
  then show ?case by (simp add: outcome_volume_ok_def)
next
  case (Cons inp inps)
  have t: "outcome_ok (tick inp s)"
    by (rule tick_ok [OF Cons.prems(1)])
  have tv: "outcome_volume_ok (tick inp s)"
    by (rule tick_volume_ok [OF Cons.prems])
  show ?case
    using t tv Cons.IH
    by (cases "tick inp s") (simp_all add: outcome_ok_def outcome_volume_ok_def)
qed

lemma volume_ok_init: "volume_ok (init_state lib h w)"
  by (simp add: volume_ok_def init_state_def)

text \<open>
  C7. The volume starts at 50. After any sequence of iterations from the initial state the
  loop has not raised, the volume is within 0 and 100, and so is every level that was
  passed to the player. In normal mode \<open>=\<close> raises the volume by 5, up to 100, and
  \<open>-\<close> lowers it by 5, down to 0, and the new level is passed to the player.
\<close>

theorem volume_stays_in_range:
  "volume (init_state lib h w) = 50 \<and>
   (\<exists>s'. (run inps (init_state lib h w) = Running s' \<or>
          run inps (init_state lib h w) = Exited s') \<and>
         0 \<le> volume s' \<and> volume s' \<le> 100 \<and> list_all volume_call_ok (player_calls s')) \<and>
   (session_ok s \<and> \<not> search_active s \<and> key inp = ord CHR ''='' \<longrightarrow>
      (\<exists>s'. tick inp s = Running s' \<and> volume s' = min 100 (volume s + 5) \<and>
            player_calls s' =
              player_calls s @ repeat_calls inp s @ [AudioSetVolume (min 100 (volume s + 5))])) \<and>
   (session_ok s \<and> \<not> search_active s \<and> key inp = ord CHR ''-'' \<longrightarrow>
      (\<exists>s'. tick inp s = Running s' \<and> volume s' = max 0 (volume s - 5) \<and>
            player_calls s' =
              player_calls s @ repeat_calls inp s @ [AudioSetVolume (max 0 (volume s - 5))]))"
proof (intro conjI impI)
  show "volume (init_state lib h w) = 50"
    by (simp add: init_state_def)
next
  have a: "outcome_ok (run inps (init_state lib h w))"
    by (rule run_ok [OF session_ok_init])
  have b: "outcome_volume_ok (run inps (init_state lib h w))"
    by (rule run_volume_ok [OF session_ok_init volume_ok_init])
  show "\<exists>s'. (run inps (init_state lib h w) = Running s' \<or>
          run inps (init_state lib h w) = Exited s') \<and>
         0 \<le> volume s' \<and> volume s' \<le> 100 \<and> list_all volume_call_ok (player_calls s')"
    using a b
    by (cases "run inps (init_state lib h w)")
       (simp_all add: outcome_ok_def outcome_volume_ok_def volume_ok_def)
next
  assume a: "session_ok s \<and> \<not> search_active s \<and> key inp = ord CHR ''=''"
  then obtain v where t: "tick inp s = handle_key inp v (before_key inp s)"
    using tick_browsing [of s inp] by blast
  have "handle_key inp v (before_key inp s) =
     Running (call_player [AudioSetVolume (min 100 (volume (before_key inp s) + 5))]
                ((before_key inp s)\<lparr>volume := min 100 (volume (before_key inp s) + 5)\<rparr>))"
    using a by (intro handle_key_volume_up) simp
  with t show "\<exists>s'. tick inp s = Running s' \<and> volume s' = min 100 (volume s + 5) \<and>
            player_calls s' =
              player_calls s @ repeat_calls inp s @ [AudioSetVolume (min 100 (volume s + 5))]"
    by (simp add: call_player_def before_key_fields)
next
  assume a: "session_ok s \<and> \<not> search_active s \<and> key inp = ord CHR ''-''"
  then obtain v where t: "tick inp s = handle_key inp v (before_key inp s)"
    using tick_browsing [of s inp] by blast
  have "handle_key inp v (before_key inp s) =
     Running (call_player [AudioSetVolume (max 0 (volume (before_key inp s) - 5))]
                ((before_key inp s)\<lparr>volume := max 0 (volume (before_key inp s) - 5)\<rparr>))"
    using a by (intro handle_key_volume_down) simp
  with t show "\<exists>s'. tick inp s = Running s' \<and> volume s' = max 0 (volume s - 5) \<and>
            player_calls s' =
              player_calls s @ repeat_calls inp s @ [AudioSetVolume (max 0 (volume s - 5))]"
    by (simp add: call_player_def before_key_fields)
qed

theorem volume_stays_in_range_witness:
  "calls_of (run (replicate 12 (press (ord CHR ''=''))) (init_state example_library 24 80)) =
     [AudioSetVolume 50, AudioSetVolume 55, AudioSetVolume 60, AudioSetVolume 65,
      AudioSetVolume 70, AudioSetVolume 75, AudioSetVolume 80, AudioSetVolume 85,
      AudioSetVolume 90, AudioSetVolume 95, AudioSetVolume 100, AudioSetVolume 100,
      AudioSetVolume 100] \<and>
   (\<exists>s'. (run (replicate 12 (press (ord CHR ''=''))) (init_state example_library 24 80) = Running s' \<or>
          run (replicate 12 (press (ord CHR ''=''))) (init_state example_library 24 80) = Exited s') \<and>
         0 \<le> volume s' \<and> volume s' \<le> 100 \<and> list_all volume_call_ok (player_calls s')) \<and>
   session_ok (init_state example_library 24 80) \<and>
   \<not> search_active (init_state example_library 24 80) \<and>
   key (press (ord CHR ''-'')) = ord CHR ''-'' \<and>
   (\<exists>s'. tick (press (ord CHR ''-'')) (init_state example_library 24 80) = Running s' \<and>
         volume s' = 45 \<and> player_calls s' = [AudioSetVolume 50, AudioSetVolume 45])"
proof -
  have c: "calls_of (run (replicate 12 (press (ord CHR ''=''))) (init_state example_library 24 80)) =
     [AudioSetVolume 50, AudioSetVolume 55, AudioSetVolume 60, AudioSetVolume 65,
      AudioSetVolume 70, AudioSetVolume 75, AudioSetVolume 80, AudioSetVolume 85,
      AudioSetVolume 90, AudioSetVolume 95, AudioSetVolume 100, AudioSetVolume 100,
      AudioSetVolume 100]"
    by code_simp
  have nb: "\<not> search_active (init_state example_library 24 80)"
    by (simp add: init_state_def)
  have k: "key (press (ord CHR ''-'')) = ord CHR ''-''"
    by (simp add: press_def)
  have f: "volume (init_state example_library 24 80) = 50"
      "player_calls (init_state example_library 24 80) = [AudioSetVolume 50]"
      "repeat_calls (press (ord CHR ''-'')) (init_state example_library 24 80) = []"
    by (simp_all add: init_state_def repeat_calls_def)
  note t = volume_stays_in_range [of example_library 24 80 "replicate 12 (press (ord CHR ''=''))"
      "init_state example_library 24 80" "press (ord CHR ''-'')"]
  from t session_ok_init nb k f
  have "\<exists>s'. tick (press (ord CHR ''-'')) (init_state example_library 24 80) = Running s' \<and>
         volume s' = 45 \<and> player_calls s' = [AudioSetVolume 50, AudioSetVolume 45]"
    by auto
  with t c session_ok_init nb k show ?thesis
    by blast
qed

section \<open>Navigation\<close>

lemma window_ok_zero: "1 \<le> n \<Longrightarrow> window_ok 0 0 rows n"
  by (simp add: window_ok_def)

lemma window_ok_up:
  "window_ok sel off rows n \<Longrightarrow>
   window_ok (if sel > 0 then sel - 1 else sel)
             (if sel > 0 then off else if sel + off > 0 then off - 1 else off) rows n"
  by (auto simp: window_ok_def)

lemma window_ok_down:
  "window_ok sel off rows n \<Longrightarrow>
   window_ok (if sel < min (rows - 1) (n - 1) then sel + 1 else sel)
             (if sel < min (rows - 1) (n - 1) then off
              else if sel + off < n - 1 then off + 1 else off) rows n"
  by (auto simp: window_ok_def)

lemma window_ok_down_none:
  "window_ok sel off rows n \<Longrightarrow>
   window_ok (if sel < min (rows - 1) (int (length ([] :: string list)) - 1) then sel + 1 else sel)
             (if sel < min (rows - 1) (int (length ([] :: string list)) - 1) then off
              else if sel + off < int (length ([] :: string list)) - 1 then off + 1 else off)
             rows n"
  by (auto simp: window_ok_def)

lemma py_slice_nth:
  assumes a: "0 \<le> a" and i: "0 \<le> i" and len: "i < int (length (py_slice xs a b))"
  shows "py_slice xs a b ! nat i = xs ! nat (a + i)"
proof -
  define n where "n = int (length xs)"
  define hi where "hi = slice_bound b n"
  have sl: "py_slice xs a b = take (nat (hi - min a n)) (drop (nat (min a n)) xs)"
    using a by (simp add: py_slice_def Let_def slice_bound_def n_def hi_def)
  have "length (py_slice xs a b) \<le> length (drop (nat (min a n)) xs)"
    unfolding sl by simp
  then have "nat i < length (drop (nat (min a n)) xs)"
    using len i by linarith
  then have lt: "nat (min a n) + nat i < length xs"
    by simp
  then have an: "min a n = a"
    using a i unfolding n_def min_def by (cases "a \<le> int (length xs)") simp_all
  have "length (py_slice xs a b) \<le> nat (hi - a)"
    unfolding sl an by simp
  then have k: "nat i < nat (hi - a)"
    using len i by linarith
  have "py_slice xs a b ! nat i = drop (nat a) xs ! nat i"
    unfolding sl an by (rule nth_take [OF k])
  also have "\<dots> = xs ! (nat a + nat i)"
    using lt unfolding an by simp
  also have "nat a + nat i = nat (a + i)"
    using a i by (simp add: nat_add_distrib)
  finally show ?thesis .
qed

lemma py_slice_nth_bound:
  assumes a: "0 \<le> a" and i: "0 \<le> i" and len: "i < int (length (py_slice xs a b))"
  shows "a + i < int (length xs)"
proof -
  define n where "n = int (length xs)"
  define hi where "hi = slice_bound b n"
  have sl: "py_slice xs a b = take (nat (hi - min a n)) (drop (nat (min a n)) xs)"
    using a by (simp add: py_slice_def Let_def slice_bound_def n_def hi_def)
  have "length (py_slice xs a b) \<le> length (drop (nat (min a n)) xs)"
    unfolding sl by simp
  then have "nat i < length (drop (nat (min a n)) xs)"
    using len i by linarith
  then have lt: "nat (min a n) + nat i < length xs"
    by simp
  then have an: "min a n = a"
    using a i unfolding n_def min_def by (cases "a \<le> int (length xs)") simp_all
  show ?thesis
    using lt a i unfolding an by linarith
qed

lemma frame_view:
  "nav_frame lib s \<Longrightarrow> current_artists s = keys lib"
  "nav_frame lib s \<Longrightarrow> current_library s = lib"
  by (simp_all add: nav_frame_def current_artists_def current_library_def)

lemma selected_songs_at:
  assumes f: "nav_frame lib s"
  shows "selected_songs s = songs_at lib (selected_artist s + artist_offset s)"
  unfolding selected_songs_def songs_at_def frame_view [OF f] by (rule refl)

lemma library_entry:
  assumes ok: "library_ok lib" and i0: "0 \<le> i" and i1: "i \<le> int (length lib) - 1"
  shows "py_index (keys lib) i = Inr (fst (lib ! nat i))"
    and "dict_get lib (fst (lib ! nat i)) = Inr (snd (lib ! nat i))"
    and "flatten_album (snd (lib ! nat i)) \<noteq> []"
proof -
  have lt: "nat i < length lib"
    using i0 i1 by linarith
  have "i < int (length (keys lib))"
    using i1 by (simp add: keys_def)
  then have "py_index (keys lib) i = Inr (keys lib ! nat i)"
    by (rule py_index_in_range [OF i0])
  then show "py_index (keys lib) i = Inr (fst (lib ! nat i))"
    using lt by (simp add: keys_def)
  have m: "lib ! nat i \<in> set lib"
    using lt by (rule nth_mem)
  have wf: "wf_dict lib"
    using ok by (simp add: library_ok_def)
  have "(fst (lib ! nat i), snd (lib ! nat i)) \<in> set lib"
    using m by simp
  then show "dict_get lib (fst (lib ! nat i)) = Inr (snd (lib ! nat i))"
    by (simp only: wf_dict_lookup [OF wf])
  have "list_all (\<lambda>item. flatten_album (snd item) \<noteq> []) lib"
    using ok by (simp add: library_ok_def)
  then show "flatten_album (snd (lib ! nat i)) \<noteq> []"
    using m by (simp add: list_all_iff)
qed

lemma songs_at_entry:
  assumes ok: "library_ok lib" and i0: "0 \<le> i" and i1: "i \<le> int (length lib) - 1"
  shows "songs_at lib i = flatten_album (snd (lib ! nat i))" and "songs_at lib i \<noteq> []"
proof -
  show e: "songs_at lib i = flatten_album (snd (lib ! nat i))"
    by (simp add: songs_at_def library_entry [OF ok i0 i1])
  show "songs_at lib i \<noteq> []"
    unfolding e by (rule library_entry(3) [OF ok i0 i1])
qed

lemma songs_window_zero:
  assumes ok: "library_ok lib" and w: "window_ok sel off rows (int (length lib))"
  shows "window_ok 0 0 rows' (int (length (songs_at lib (sel + off))))"
proof -
  have "0 \<le> sel + off" "sel + off \<le> int (length lib) - 1"
    using w by (simp_all add: window_ok_def)
  then have "songs_at lib (sel + off) \<noteq> []"
    by (rule songs_at_entry(2) [OF ok])
  then have "1 \<le> int (length (songs_at lib (sel + off)))"
    by (cases "songs_at lib (sel + off)") simp_all
  then show ?thesis
    by (rule window_ok_zero)
qed

lemma library_ok_length: "library_ok lib \<Longrightarrow> 1 \<le> int (length lib)"
  by (cases lib) (simp_all add: library_ok_def)

lemma nav_inv_init:
  assumes ok: "library_ok lib"
  shows "nav_inv lib (init_state lib h w)"
proof -
  have f: "nav_frame lib (init_state lib h w)"
    using ok session_ok_init [of lib h w] by (simp add: nav_frame_def init_state_def)
  have a: "window_ok 0 0 (max_rows (compute_layout h w)) (int (length lib))"
    by (rule window_ok_zero [OF library_ok_length [OF ok]])
  have b: "window_ok 0 0 (max_rows (compute_layout h w)) (int (length (songs_at lib (0 + 0))))"
    by (rule songs_window_zero [OF ok a])
  show ?thesis
    unfolding nav_inv_def selected_songs_at [OF f]
    using f a b by (simp add: init_state_def)
qed

lemma nav_frame_resize: "nav_frame lib s \<Longrightarrow> nav_frame lib (handle_resize inp s)"
  by (simp add: nav_frame_def session_ok_resize) (simp add: handle_resize_def reset_cursors_def)

lemma nav_inv_resize:
  assumes inv: "nav_inv lib s"
  shows "nav_inv lib (handle_resize inp s)"
proof (cases "(term_height inp, term_width inp) \<noteq> (height s, width s)")
  case False
  then show ?thesis
    using inv by (simp add: handle_resize_def)
next
  case True
  have f: "nav_frame lib s" and ok: "library_ok lib"
    using inv by (simp_all add: nav_inv_def nav_frame_def)
  have f': "nav_frame lib (handle_resize inp s)"
    by (rule nav_frame_resize [OF f])
  define rows where "rows = max_rows (compute_layout (term_height inp) (term_width inp))"
  have c: "selected_artist (handle_resize inp s) = 0" "artist_offset (handle_resize inp s) = 0"
      "selected_song (handle_resize inp s) = 0" "song_offset (handle_resize inp s) = 0"
      "max_rows (layout (handle_resize inp s)) = rows"
    using True by (simp_all add: handle_resize_def reset_cursors_def rows_def)
  have a: "window_ok 0 0 rows (int (length lib))"
    by (rule window_ok_zero [OF library_ok_length [OF ok]])
  have b: "window_ok 0 0 rows (int (length (songs_at lib (0 + 0))))"
    by (rule songs_window_zero [OF ok a])
  show ?thesis
    unfolding nav_inv_def selected_songs_at [OF f'] c
    using f' a b by simp
qed

lemma view_call_player:
  "current_artists (call_player cs s) = current_artists s"
  "current_library (call_player cs s) = current_library s"
  by (simp_all add: current_artists_def current_library_def call_player_def)

lemma selected_songs_call_player: "selected_songs (call_player cs s) = selected_songs s"
  unfolding selected_songs_def view_call_player by (simp add: call_player_def)

lemma nav_inv_call_player: "nav_inv lib s \<Longrightarrow> nav_inv lib (call_player cs s)"
  unfolding nav_inv_def nav_frame_def session_ok_call_player selected_songs_call_player
  by (simp add: call_player_def)

lemma nav_inv_before_key: "nav_inv lib s \<Longrightarrow> nav_inv lib (before_key inp s)"
  unfolding before_key_def by (intro nav_inv_call_player nav_inv_resize)

lemma fields_call_player:
  "layout (call_player cs s) = layout s"
  "selected_artist (call_player cs s) = selected_artist s"
  "artist_offset (call_player cs s) = artist_offset s"
  "selected_song (call_player cs s) = selected_song s"
  "song_offset (call_player cs s) = song_offset s"
  by (simp_all add: call_player_def)

lemma draw_panes_call_player: "draw_panes (call_player cs s) = draw_panes s"
  unfolding draw_panes_def view_call_player fields_call_player by (rule refl)

lemma draw_panes_songs:
  assumes inv: "nav_inv lib s" and d: "draw_panes s = Inr v"
  shows "all_songs_by_artist v = [] \<or> all_songs_by_artist v = selected_songs s"
proof -
  have f: "nav_frame lib s" and ok: "library_ok lib"
    using inv by (simp_all add: nav_inv_def nav_frame_def)
  have sa: "0 \<le> selected_artist s" and ao: "0 \<le> artist_offset s"
    using inv by (simp_all add: nav_inv_def window_ok_def)
  define va where
    "va = py_slice (current_artists s) (artist_offset s) (artist_offset s + max_rows (layout s))"
  show ?thesis
  proof (cases "va \<noteq> [] \<and> selected_artist s < int (length va)")
    case False
    then have "draw_panes s = Inr \<lparr>visible_artists = va, all_songs_by_artist = [], visible_songs = []\<rparr>"
      unfolding va_def by (rule draw_panes_else)
    with d show ?thesis by auto
  next
    case True
    have len: "selected_artist s < int (length (py_slice (keys lib) (artist_offset s)
        (artist_offset s + max_rows (layout s))))"
      using True unfolding va_def frame_view [OF f] by simp
    define i where "i = artist_offset s + selected_artist s"
    have i0: "0 \<le> i"
      using sa ao by (simp add: i_def)
    have "i < int (length (keys lib))"
      unfolding i_def by (rule py_slice_nth_bound [OF ao sa len])
    then have i1: "i \<le> int (length lib) - 1"
      by (simp add: keys_def)
    have idx: "py_index va (selected_artist s) = Inr (va ! nat (selected_artist s))"
      by (rule py_index_in_range [OF sa conjunct2 [OF True]])
    have "va ! nat (selected_artist s) = keys lib ! nat i"
      unfolding va_def frame_view [OF f] i_def by (rule py_slice_nth [OF ao sa len])
    also have "\<dots> = fst (lib ! nat i)"
      using i0 i1 by (simp add: keys_def)
    finally have art: "va ! nat (selected_artist s) = fst (lib ! nat i)" .
    have idx': "py_index va (selected_artist s) = Inr (fst (lib ! nat i))"
      using idx art by simp
    have g: "dict_get (current_library s) (fst (lib ! nat i)) = Inr (snd (lib ! nat i))"
      unfolding frame_view [OF f] by (rule library_entry(2) [OF ok i0 i1])
    have "draw_panes s = Inr \<lparr>visible_artists = va,
       all_songs_by_artist = flatten_album (snd (lib ! nat i)),
       visible_songs = py_slice (flatten_album (snd (lib ! nat i))) (song_offset s)
          (song_offset s + max_rows (layout s))\<rparr>"
      unfolding va_def
      by (rule draw_panes_then [OF conjunct1 [OF True [unfolded va_def]]
            conjunct2 [OF True [unfolded va_def]] idx' [unfolded va_def] g])
    with d have "all_songs_by_artist v = flatten_album (snd (lib ! nat i))"
      by auto
    also have "\<dots> = songs_at lib i"
      by (rule songs_at_entry(1) [OF ok i0 i1, symmetric])
    also have "\<dots> = selected_songs s"
      unfolding selected_songs_at [OF f] i_def by (simp add: add.commute)
    finally show ?thesis by simp
  qed
qed

lemma nav_up_fields:
  "selected_artist (nav_up s) = (if selected_artist s > 0 then selected_artist s - 1 else selected_artist s)"
  "artist_offset (nav_up s) =
     (if selected_artist s > 0 then artist_offset s
      else if selected_artist s + artist_offset s > 0 then artist_offset s - 1 else artist_offset s)"
  "selected_song (nav_up s) = 0" "song_offset (nav_up s) = 0" "layout (nav_up s) = layout s"
  "library (nav_up s) = library s" "artists (nav_up s) = artists s"
  "search_query (nav_up s) = search_query s" "search_active (nav_up s) = search_active s"
  by (simp_all add: nav_up_def Let_def)

lemma nav_down_fields:
  "selected_artist (nav_down s) =
     (if selected_artist s < min (max_rows (layout s) - 1) (int (length (current_artists s)) - 1)
      then selected_artist s + 1 else selected_artist s)"
  "artist_offset (nav_down s) =
     (if selected_artist s < min (max_rows (layout s) - 1) (int (length (current_artists s)) - 1)
      then artist_offset s
      else if selected_artist s + artist_offset s < int (length (current_artists s)) - 1
      then artist_offset s + 1 else artist_offset s)"
  "selected_song (nav_down s) = 0" "song_offset (nav_down s) = 0" "layout (nav_down s) = layout s"
  "library (nav_down s) = library s" "artists (nav_down s) = artists s"
  "search_query (nav_down s) = search_query s" "search_active (nav_down s) = search_active s"
  by (simp_all add: nav_down_def Let_def current_artists_def)

lemma nav_left_fields:
  "selected_song (nav_left s) = (if selected_song s > 0 then selected_song s - 1 else selected_song s)"
  "song_offset (nav_left s) =
     (if selected_song s > 0 then song_offset s
      else if selected_song s + song_offset s > 0 then song_offset s - 1 else song_offset s)"
  "selected_artist (nav_left s) = selected_artist s" "artist_offset (nav_left s) = artist_offset s"
  "layout (nav_left s) = layout s"
  "library (nav_left s) = library s" "artists (nav_left s) = artists s"
  "search_query (nav_left s) = search_query s" "search_active (nav_left s) = search_active s"
  by (simp_all add: nav_left_def)

lemma nav_right_fields:
  "selected_song (nav_right v s) =
     (if selected_song s < min (max_rows (layout s) - 1) (int (length (all_songs_by_artist v)) - 1)
      then selected_song s + 1 else selected_song s)"
  "song_offset (nav_right v s) =
     (if selected_song s < min (max_rows (layout s) - 1) (int (length (all_songs_by_artist v)) - 1)
      then song_offset s
      else if selected_song s + song_offset s < int (length (all_songs_by_artist v)) - 1
      then song_offset s + 1 else song_offset s)"
  "selected_artist (nav_right v s) = selected_artist s" "artist_offset (nav_right v s) = artist_offset s"
  "layout (nav_right v s) = layout s"
  "library (nav_right v s) = library s" "artists (nav_right v s) = artists s"
  "search_query (nav_right v s) = search_query s" "search_active (nav_right v s) = search_active s"
  by (simp_all add: nav_right_def Let_def)

lemma nav_frame_steps:
  assumes f: "nav_frame lib s"
  shows "nav_frame lib (nav_up s)" "nav_frame lib (nav_down s)"
    "nav_frame lib (nav_left s)" "nav_frame lib (nav_right v s)"
  using f
  by (simp_all add: nav_frame_def session_ok_nav_up session_ok_nav_down session_ok_nav_left
        session_ok_nav_right nav_up_fields nav_down_fields nav_left_fields nav_right_fields)

lemma nav_inv_parts:
  assumes inv: "nav_inv lib s"
  shows "nav_frame lib s" "library_ok lib"
    "window_ok (selected_artist s) (artist_offset s) (max_rows (layout s)) (int (length lib))"
    "window_ok (selected_song s) (song_offset s) (max_rows (layout s))
       (int (length (selected_songs s)))"
  using inv by (simp_all add: nav_inv_def nav_frame_def)

lemma nav_inv_up:
  assumes inv: "nav_inv lib s"
  shows "nav_inv lib (nav_up s)"
proof -
  note p = nav_inv_parts [OF inv]
  have f': "nav_frame lib (nav_up s)"
    by (rule nav_frame_steps(1) [OF p(1)])
  have a: "window_ok (selected_artist (nav_up s)) (artist_offset (nav_up s))
      (max_rows (layout s)) (int (length lib))"
    unfolding nav_up_fields by (rule window_ok_up [OF p(3)])
  have b: "window_ok 0 0 (max_rows (layout s))
      (int (length (songs_at lib (selected_artist (nav_up s) + artist_offset (nav_up s)))))"
    by (rule songs_window_zero [OF p(2) a])
  show ?thesis
    unfolding nav_inv_def selected_songs_at [OF f']
    using f' a b by (simp add: nav_up_fields(3,4,5))
qed

lemma nav_inv_down:
  assumes inv: "nav_inv lib s"
  shows "nav_inv lib (nav_down s)"
proof -
  note p = nav_inv_parts [OF inv]
  have f': "nav_frame lib (nav_down s)"
    by (rule nav_frame_steps(2) [OF p(1)])
  have n: "int (length (current_artists s)) = int (length lib)"
    unfolding frame_view [OF p(1)] by (simp add: keys_def)
  have a: "window_ok (selected_artist (nav_down s)) (artist_offset (nav_down s))
      (max_rows (layout s)) (int (length lib))"
    unfolding nav_down_fields n by (rule window_ok_down [OF p(3)])
  have b: "window_ok 0 0 (max_rows (layout s))
      (int (length (songs_at lib (selected_artist (nav_down s) + artist_offset (nav_down s)))))"
    by (rule songs_window_zero [OF p(2) a])
  show ?thesis
    unfolding nav_inv_def selected_songs_at [OF f']
    using f' a b by (simp add: nav_down_fields(3,4,5))
qed

lemma nav_inv_left:
  assumes inv: "nav_inv lib s"
  shows "nav_inv lib (nav_left s)"
proof -
  note p = nav_inv_parts [OF inv]
  have f': "nav_frame lib (nav_left s)"
    by (rule nav_frame_steps(3) [OF p(1)])
  have b: "window_ok (selected_song (nav_left s)) (song_offset (nav_left s))
      (max_rows (layout s)) (int (length (selected_songs s)))"
    unfolding nav_left_fields by (rule window_ok_up [OF p(4)])
  show ?thesis
    unfolding nav_inv_def selected_songs_at [OF f']
    using f' p(3) b
    by (simp add: nav_left_fields(3,4,5) selected_songs_at [OF p(1)])
qed

lemma nav_inv_right:
  assumes inv: "nav_inv lib s" and v: "all_songs_by_artist v = [] \<or> all_songs_by_artist v = selected_songs s"
  shows "nav_inv lib (nav_right v s)"
proof -
  note p = nav_inv_parts [OF inv]
  have f': "nav_frame lib (nav_right v s)"
    by (rule nav_frame_steps(4) [OF p(1)])
  have b: "window_ok (selected_song (nav_right v s)) (song_offset (nav_right v s))
      (max_rows (layout s)) (int (length (selected_songs s)))"
  proof (cases "all_songs_by_artist v = []")
    case True
    show ?thesis
      unfolding nav_right_fields True by (rule window_ok_down_none [OF p(4)])
  next
    case False
    with v have e: "all_songs_by_artist v = selected_songs s" by simp
    show ?thesis
      unfolding nav_right_fields e by (rule window_ok_down [OF p(4)])
  qed
  show ?thesis
    unfolding nav_inv_def selected_songs_at [OF f']
    using f' p(3) b
    by (simp add: nav_right_fields(3,4,5) selected_songs_at [OF p(1)])
qed

lemma tick_nav:
  assumes inv: "nav_inv lib s" and k: "nav_key (key inp)"
  shows "\<exists>s'. tick inp s = Running s' \<and> nav_inv lib s'"
proof -
  note p = nav_inv_parts [OF inv]
  have ok: "session_ok s" and br: "\<not> search_active s"
    using p(1) by (simp_all add: nav_frame_def)
  from tick_browsing [OF ok br, of inp] obtain v where
    d: "draw_panes (handle_resize inp s) = Inr v" and
    t: "tick inp s = handle_key inp v (before_key inp s)"
    by blast
  have inv2: "nav_inv lib (before_key inp s)"
    by (rule nav_inv_before_key [OF inv])
  have d2: "draw_panes (before_key inp s) = Inr v"
    unfolding before_key_def draw_panes_call_player by (rule d)
  have sv: "all_songs_by_artist v = [] \<or> all_songs_by_artist v = selected_songs (before_key inp s)"
    by (rule draw_panes_songs [OF inv2 d2])
  consider "key inp = KEY_UP" | "key inp = KEY_DOWN" | "key inp = KEY_LEFT" | "key inp = KEY_RIGHT"
    using k unfolding nav_key_def by blast
  then show ?thesis
  proof cases
    case 1
    show ?thesis
      unfolding t handle_key_up [OF 1] using nav_inv_up [OF inv2] by simp
  next
    case 2
    show ?thesis
      unfolding t handle_key_down [OF 2] using nav_inv_down [OF inv2] by simp
  next
    case 3
    show ?thesis
      unfolding t handle_key_left [OF 3] using nav_inv_left [OF inv2] by simp
  next
    case 4
    show ?thesis
      unfolding t handle_key_right [OF 4] using nav_inv_right [OF inv2 sv] by simp
  qed
qed

lemma run_nav:
  "nav_inv lib s \<Longrightarrow> list_all (\<lambda>inp. nav_key (key inp)) inps \<Longrightarrow>
   \<exists>s'. run inps s = Running s' \<and> nav_inv lib s'"
proof (induction inps arbitrary: s)
  case Nil
  then show ?case by simp
next
  case (Cons inp inps)
  have k: "nav_key (key inp)" and ks: "list_all (\<lambda>inp. nav_key (key inp)) inps"
    using Cons.prems(2) by simp_all
  from tick_nav [OF Cons.prems(1) k] obtain s1 where
    t: "tick inp s = Running s1" and i1: "nav_inv lib s1" by blast
  from Cons.IH [OF i1 ks] show ?case
    by (simp add: t)
qed

lemma nav_inv_bounds:
  assumes inv: "nav_inv lib s"
  shows "cursors_in_bounds s"
proof -
  note p = nav_inv_parts [OF inv]
  have "int (length (current_artists s)) = int (length lib)"
    unfolding frame_view [OF p(1)] by (simp add: keys_def)
  then show ?thesis
    using p(3,4) by (simp add: cursors_in_bounds_def window_ok_def)
qed

text \<open>
  C2. For an index that is not empty and whose artists each have a track, after any
  sequence of iterations from the initial state whose keys are Up, Down, Left or Right,
  on terminals of any size (a change of size between iterations included), the loop is
  still running, and for the artist list and for the song list of the artist under the
  cursor the selected index plus the scroll offset is at least 0 and at most the length
  of the list less one.
\<close>

theorem navigation_bounds:
  assumes wf: "wf_dict lib" and ne: "lib \<noteq> []"
    and songs: "list_all (\<lambda>item. flatten_album (snd item) \<noteq> []) lib"
    and ks: "list_all (\<lambda>inp. nav_key (key inp)) inps"
  shows "\<exists>s. run inps (init_state lib h w) = Running s \<and> cursors_in_bounds s"
proof -
  have "library_ok lib"
    using wf ne songs by (simp add: library_ok_def)
  then have "nav_inv lib (init_state lib h w)"
    by (rule nav_inv_init)
  from run_nav [OF this ks] obtain s where
    "run inps (init_state lib h w) = Running s" "nav_inv lib s" by blast
  then show ?thesis
    using nav_inv_bounds by blast
qed

theorem navigation_bounds_witness:
  "wf_dict example_library \<and> example_library \<noteq> [] \<and>
   list_all (\<lambda>item. flatten_album (snd item) \<noteq> []) example_library \<and>
   list_all (\<lambda>inp. nav_key (key inp))
     [press_small KEY_DOWN, press_small KEY_DOWN, press_small KEY_RIGHT, press_small KEY_LEFT] \<and>
   run [press_small KEY_DOWN, press_small KEY_DOWN, press_small KEY_RIGHT, press_small KEY_LEFT]
     (init_state example_library 13 80) =
     Running ((init_state example_library 13 80)\<lparr>artist_offset := 1\<rparr>) \<and>
   cursors_in_bounds ((init_state example_library 13 80)\<lparr>artist_offset := 1\<rparr>)"
proof -
  have wf: "wf_dict example_library" by code_simp
  have ne: "example_library \<noteq> []" by code_simp
  have songs: "list_all (\<lambda>item. flatten_album (snd item) \<noteq> []) example_library"
    by code_simp
  have ks: "list_all (\<lambda>inp. nav_key (key inp))
     [press_small KEY_DOWN, press_small KEY_DOWN, press_small KEY_RIGHT, press_small KEY_LEFT]"
    by code_simp
  have r: "run [press_small KEY_DOWN, press_small KEY_DOWN, press_small KEY_RIGHT, press_small KEY_LEFT]
     (init_state example_library 13 80) =
     Running ((init_state example_library 13 80)\<lparr>artist_offset := 1\<rparr>)"
    by code_simp
  from navigation_bounds [OF wf ne songs ks, of 13 80] r
  have "cursors_in_bounds ((init_state example_library 13 80)\<lparr>artist_offset := 1\<rparr>)"
    by simp
  with wf ne songs ks r show ?thesis
    by blast
qed

end
